theory Spec2Isabelle
  imports Main "HOL-Library.Word"
begin

section \<open>Environment: errors, the heap and the allocator\<close>

text \<open>
  The library \<^verbatim>\<open>array_lib.h\<close> manages raw heap storage by hand. The source holds four
  variants of the header; the one embedded here is the latest, with \<^verbatim>\<open>StackArray\<close>,
  \<^verbatim>\<open>HeapArray\<close> and \<^verbatim>\<open>GrowingArray\<close> and their \<^verbatim>\<open>copy()\<close> methods. Its operations are
  embedded as functions on an explicit heap. A call of \<^verbatim>\<open>abort()\<close> is the error \<open>Abort\<close>;
  an access outside a live block (null pointer, freed block, index past the end of the
  block, read of a slot that holds no value) and the overflow of a signed counter are
  undefined behaviour in C++ and are the error \<open>Undefined\<close>.
\<close>

datatype error = Abort | Undefined

text \<open>
  A pointer is the number of a block, \<open>0\<close> being \<^verbatim>\<open>nullptr\<close>; \<^verbatim>\<open>p + i\<close> and \<^verbatim>\<open>p[i]\<close> are the
  pair of the block \<open>p\<close> and the element index \<open>i\<close>. An element slot of a block is
  \<^item> \<open>Raw\<close>: raw storage as \<^verbatim>\<open>malloc\<close> returns it, or as a destructor leaves it;
  \<^item> \<open>Assigned v\<close>: raw storage into which the assignment operator has written the value
    \<open>v\<close>; no constructor has run on it;
  \<^item> \<open>Object v\<close>: an object with the value \<open>v\<close>, built by a constructor.
\<close>

type_synonym addr = nat

datatype 'a slot = Raw | Assigned 'a | Object 'a

fun slot_value :: "'a slot \<Rightarrow> 'a option" where
  "slot_value Raw = None"
| "slot_value (Assigned v) = Some v"
| "slot_value (Object v) = Some v"

text \<open>What the assignment operator \<^verbatim>\<open>p[i] = v\<close> makes of a slot.\<close>

fun assign_slot :: "'a \<Rightarrow> 'a slot \<Rightarrow> 'a slot" where
  "assign_slot v (Object w) = Object v"
| "assign_slot v (Assigned w) = Assigned v"
| "assign_slot v Raw = Assigned v"

text \<open>The object a copy or move constructor builds from a source slot that holds a value.\<close>

fun as_object :: "'a slot \<Rightarrow> 'a slot" where
  "as_object Raw = Raw"
| "as_object (Assigned v) = Object v"
| "as_object (Object v) = Object v"

text \<open>
  A block records the number of bytes asked of \<^verbatim>\<open>malloc\<close> and its element slots. \<open>avail\<close>
  is the number of bytes the allocator can still hand out (\<open>None\<close>: no limit). \<open>ctors\<close>
  and \<open>dtors\<close> count the constructor and destructor calls of the element type \<^verbatim>\<open>T\<close>, as an
  instrumented element type would record them.
\<close>

record 'a heap =
  blocks :: "(nat \<times> 'a slot list) option list"
  avail :: "nat option"
  ctors :: nat
  dtors :: nat

definition block_at :: "'a heap \<Rightarrow> addr \<Rightarrow> (nat \<times> 'a slot list) option" where
  "block_at h p = (if p = 0 \<or> length (blocks h) < p then None else blocks h ! (p - 1))"

definition slots :: "'a heap \<Rightarrow> addr \<Rightarrow> 'a slot list" where
  "slots h p = (case block_at h p of None \<Rightarrow> [] | Some (n, sl) \<Rightarrow> sl)"

text \<open>
  \<^verbatim>\<open>malloc(n)\<close>: a fresh block of \<open>n\<close> bytes, which has room for \<open>n div sz\<close> elements of
  \<open>sz = sizeof(T)\<close> bytes each, or \<^verbatim>\<open>nullptr\<close> when the allocator cannot supply \<open>n\<close> bytes
  (\<^verbatim>\<open>malloc(0)\<close> returns a block without room for any element). Block numbers are never
  reused, so a pointer to a released block stays invalid.
  \<^verbatim>\<open>free(p)\<close>: nothing for \<^verbatim>\<open>nullptr\<close>, releases a live block, undefined otherwise.
\<close>

definition can_alloc :: "nat \<Rightarrow> 'a heap \<Rightarrow> bool" where
  "can_alloc n h = (case avail h of None \<Rightarrow> True | Some m \<Rightarrow> n \<le> m)"

definition malloc :: "nat \<Rightarrow> nat \<Rightarrow> 'a heap \<Rightarrow> addr \<times> 'a heap" where
  "malloc sz n h =
     (if can_alloc n h
      then (Suc (length (blocks h)),
            h\<lparr>blocks := blocks h @ [Some (n, replicate (n div sz) Raw)],
              avail := map_option (\<lambda>m. m - n) (avail h)\<rparr>)
      else (0, h))"

definition free :: "addr \<Rightarrow> 'a heap \<Rightarrow> error + 'a heap" where
  "free p h =
     (if p = 0 then Inr h
      else case block_at h p of
             None \<Rightarrow> Inl Undefined
           | Some (n, sl) \<Rightarrow>
               Inr (h\<lparr>blocks := (blocks h)[p - 1 := None],
                      avail := map_option (\<lambda>m. m + n) (avail h)\<rparr>))"

definition read_slot :: "addr \<Rightarrow> nat \<Rightarrow> 'a heap \<Rightarrow> error + 'a" where
  "read_slot p i h =
     (if i < length (slots h p)
      then (case slot_value (slots h p ! i) of None \<Rightarrow> Inl Undefined | Some v \<Rightarrow> Inr v)
      else Inl Undefined)"

definition update_slot :: "addr \<Rightarrow> nat \<Rightarrow> ('a slot \<Rightarrow> 'a slot) \<Rightarrow> 'a heap \<Rightarrow> error + 'a heap" where
  "update_slot p i f h =
     (case block_at h p of
        None \<Rightarrow> Inl Undefined
      | Some (n, sl) \<Rightarrow>
          if i < length sl
          then Inr (h\<lparr>blocks := (blocks h)[p - 1 := Some (n, sl[i := f (sl ! i)])]\<rparr>)
          else Inl Undefined)"

text \<open>
  What the library does to an element slot. The element type \<^verbatim>\<open>T\<close> enters through \<open>sz\<close>,
  its size in bytes, through the value \<open>dflt\<close> of \<^verbatim>\<open>T()\<close>, and through \<open>mv\<close>, the value
  that the move constructor of \<^verbatim>\<open>T\<close> leaves in its source (the identity for \<^verbatim>\<open>int\<close> and
  other trivially movable types); copy constructor and assignment operator copy the value.
  \<^item> \<^verbatim>\<open>p[i] = v\<close>, the assignment operator: stores the value, no constructor runs;
  \<^item> \<^verbatim>\<open>new (p + i) T(v)\<close>, placement new: builds an object and counts a construction;
  \<^item> \<^verbatim>\<open>new (q + i) T(p[i])\<close>: reads the source element and copy-constructs the target;
  \<^item> \<^verbatim>\<open>new (q + i) T(move(p[i]))\<close>: reads the source element, move-constructs the target and
    leaves the moved-from value in the source;
  \<^item> \<^verbatim>\<open>p[i].~T()\<close>: counts a destruction and leaves raw storage.
\<close>

definition assign_at :: "addr \<Rightarrow> nat \<Rightarrow> 'a \<Rightarrow> 'a heap \<Rightarrow> error + 'a heap" where
  "assign_at p i v h = update_slot p i (assign_slot v) h"

definition construct_at :: "addr \<Rightarrow> nat \<Rightarrow> 'a \<Rightarrow> 'a heap \<Rightarrow> error + 'a heap" where
  "construct_at p i v h =
     (case update_slot p i (\<lambda>s. Object v) h of
        Inl e \<Rightarrow> Inl e
      | Inr h' \<Rightarrow> Inr (h'\<lparr>ctors := Suc (ctors h')\<rparr>))"

definition copy_construct_from :: "addr \<Rightarrow> addr \<Rightarrow> nat \<Rightarrow> 'a heap \<Rightarrow> error + 'a heap" where
  "copy_construct_from src dst i h =
     (case read_slot src i h of
        Inl e \<Rightarrow> Inl e
      | Inr v \<Rightarrow> construct_at dst i v h)"

definition move_construct_from ::
  "('a \<Rightarrow> 'a) \<Rightarrow> addr \<Rightarrow> addr \<Rightarrow> nat \<Rightarrow> 'a heap \<Rightarrow> error + 'a heap" where
  "move_construct_from mv src dst i h =
     (case read_slot src i h of
        Inl e \<Rightarrow> Inl e
      | Inr v \<Rightarrow>
          (case construct_at dst i v h of
             Inl e \<Rightarrow> Inl e
           | Inr h1 \<Rightarrow> update_slot src i (map_slot mv) h1))"

definition destroy_at :: "addr \<Rightarrow> nat \<Rightarrow> 'a heap \<Rightarrow> error + 'a heap" where
  "destroy_at p i h =
     (case read_slot p i h of
        Inl e \<Rightarrow> Inl e
      | Inr v \<Rightarrow>
          (case update_slot p i (\<lambda>s. Raw) h of
             Inl e \<Rightarrow> Inl e
           | Inr h' \<Rightarrow> Inr (h'\<lparr>dtors := Suc (dtors h')\<rparr>)))"

text \<open>
  The loops \<^verbatim>\<open>for (size_t i{0}; i != size; ++i) body\<close> run the body at \<open>0, 1, ..., size - 1\<close>
  in ascending order and stop at the first failure.
\<close>

fun for_each :: "nat list \<Rightarrow> (nat \<Rightarrow> 's \<Rightarrow> error + 's) \<Rightarrow> 's \<Rightarrow> error + 's" where
  "for_each [] body s = Inr s"
| "for_each (i # js) body s =
     (case body i s of Inl e \<Rightarrow> Inl e | Inr s' \<Rightarrow> for_each js body s')"

text \<open>
  The loops of the destructors, \<^verbatim>\<open>for (int i = 0; i != size; ++i) body\<close>, count with an
  \<^verbatim>\<open>int\<close>. \<open>int_max\<close> is the \<^verbatim>\<open>INT_MAX\<close> of the platform. Up to \<open>size = int_max\<close> the loop
  runs the body at \<open>0, ..., size - 1\<close>. For a larger \<open>size\<close> it runs the body at
  \<open>0, ..., int_max\<close> and then increments the counter past \<^verbatim>\<open>INT_MAX\<close>, a signed overflow.
\<close>

definition int_loop :: "nat \<Rightarrow> nat \<Rightarrow> (nat \<Rightarrow> 's \<Rightarrow> error + 's) \<Rightarrow> 's \<Rightarrow> error + 's" where
  "int_loop int_max n body s =
     (if n \<le> int_max then for_each [0..<n] body s
      else (case for_each [0..<Suc int_max] body s of
              Inl e \<Rightarrow> Inl e
            | Inr s' \<Rightarrow> Inl Undefined))"

text \<open>
  A parameter of type \<^verbatim>\<open>const T&\<close> is bound to an object: \<open>Val v\<close> is an object with the
  value \<open>v\<close> that no heap block holds (a temporary, a local variable), \<open>Ref p i\<close> is the
  element \<^verbatim>\<open>p[i]\<close> of a heap block. Its value is read when the code uses it.
\<close>

datatype 'a item = Val 'a | Ref addr nat

fun item_value :: "'a item \<Rightarrow> 'a heap \<Rightarrow> error + 'a" where
  "item_value (Val v) h = Inr v"
| "item_value (Ref p i) h = read_slot p i h"

section \<open>StackArray\<close>

text \<open>\<^verbatim>\<open>T c_array[N]\<close>: the list of the \<open>N\<close> elements. \<^verbatim>\<open>size_t\<close> is a word of any width.\<close>

record 'a StackArray =
  c_array :: "'a list"

definition StackArray_length :: "'a StackArray \<Rightarrow> nat" where
  "StackArray_length a = length (c_array a)"

text \<open>\<^verbatim>\<open>operator[]\<close>: the reference returned is the position in \<open>c_array\<close>.\<close>

definition StackArray_index :: "'a StackArray \<Rightarrow> 'w::len word \<Rightarrow> error + nat" where
  "StackArray_index a index =
     (if unat index \<ge> length (c_array a) then Inl Abort else Inr (unat index))"

section \<open>HeapArray\<close>

record (overloaded) ('w::len) HeapArray =
  ha_begin :: addr
  ha_size :: "'w word"

text \<open>
  The constructor asks \<^verbatim>\<open>malloc\<close> for \<^verbatim>\<open>length\<close> bytes and default-constructs \<^verbatim>\<open>length\<close>
  elements.
\<close>

definition HeapArray_new ::
  "nat \<Rightarrow> 'a \<Rightarrow> 'w::len word \<Rightarrow> 'a heap \<Rightarrow> error + ('w HeapArray \<times> 'a heap)" where
  "HeapArray_new sz dflt len h =
     (case malloc sz (unat len) h of (p, h1) \<Rightarrow>
        (case for_each [0..<unat len] (\<lambda>i. construct_at p i dflt) h1 of
           Inl e \<Rightarrow> Inl e
         | Inr h2 \<Rightarrow> Inr (\<lparr>ha_begin = p, ha_size = len\<rparr>, h2)))"

text \<open>The move constructor returns the new object and the source object as it is left.\<close>

definition HeapArray_move :: "'w::len HeapArray \<Rightarrow> 'w HeapArray \<times> 'w HeapArray" where
  "HeapArray_move temp =
     (\<lparr>ha_begin = ha_begin temp, ha_size = ha_size temp\<rparr>,
      temp\<lparr>ha_begin := 0, ha_size := 0\<rparr>)"

text \<open>
  \<^verbatim>\<open>copy()\<close>: \<^verbatim>\<open>HeapArray<T> result{0}\<close> runs the constructor with length 0 (a
  \<^verbatim>\<open>malloc(0)\<close>), then the fields of \<open>result\<close> are overwritten.
\<close>

definition HeapArray_copy ::
  "nat \<Rightarrow> 'a \<Rightarrow> 'w::len HeapArray \<Rightarrow> 'a heap \<Rightarrow> error + ('w HeapArray \<times> 'a heap)" where
  "HeapArray_copy sz dflt a h =
     (case HeapArray_new sz dflt (0 :: 'w word) h of
        Inl e \<Rightarrow> Inl e
      | Inr (result, h0) \<Rightarrow>
          (case malloc sz (unat (ha_size a)) h0 of (p, h1) \<Rightarrow>
             (case for_each [0..<unat (ha_size a)] (copy_construct_from (ha_begin a) p) h1 of
                Inl e \<Rightarrow> Inl e
              | Inr h2 \<Rightarrow> Inr (result\<lparr>ha_begin := p, ha_size := ha_size a\<rparr>, h2))))"

definition HeapArray_index :: "'w::len HeapArray \<Rightarrow> 'w word \<Rightarrow> error + (addr \<times> nat)" where
  "HeapArray_index a index =
     (if index \<ge> ha_size a then Inl Abort else Inr (ha_begin a, unat index))"

definition HeapArray_length :: "'w::len HeapArray \<Rightarrow> 'w word" where
  "HeapArray_length a = ha_size a"

definition HeapArray_destroy :: "nat \<Rightarrow> 'w::len HeapArray \<Rightarrow> 'a heap \<Rightarrow> error + 'a heap" where
  "HeapArray_destroy int_max a h =
     (case int_loop int_max (unat (ha_size a)) (destroy_at (ha_begin a)) h of
        Inl e \<Rightarrow> Inl e
      | Inr h1 \<Rightarrow> free (ha_begin a) h1)"

section \<open>GrowingArray\<close>

record (overloaded) ('w::len) GrowingArray =
  ga_begin :: addr
  ga_size :: "'w word"
  ga_capacity :: "'w word"

definition GrowingArray_new :: "'w::len GrowingArray" where
  "GrowingArray_new = \<lparr>ga_begin = 0, ga_size = 0, ga_capacity = 0\<rparr>"

definition GrowingArray_move :: "'w::len GrowingArray \<Rightarrow> 'w GrowingArray \<times> 'w GrowingArray" where
  "GrowingArray_move temp =
     (\<lparr>ga_begin = ga_begin temp, ga_size = ga_size temp, ga_capacity = ga_capacity temp\<rparr>,
      temp\<lparr>ga_begin := 0, ga_size := 0\<rparr>)"

definition GrowingArray_copy ::
  "nat \<Rightarrow> 'w::len GrowingArray \<Rightarrow> 'a heap \<Rightarrow> error + ('w GrowingArray \<times> 'a heap)" where
  "GrowingArray_copy sz a h =
     (case malloc sz (unat (ga_size a)) h of (p, h1) \<Rightarrow>
        (case for_each [0..<unat (ga_size a)] (copy_construct_from (ga_begin a) p) h1 of
           Inl e \<Rightarrow> Inl e
         | Inr h2 \<Rightarrow>
             Inr (\<lparr>ga_begin = p, ga_size = ga_size a, ga_capacity = ga_size a\<rparr>, h2)))"

definition GrowingArray_index :: "'w::len GrowingArray \<Rightarrow> 'w word \<Rightarrow> error + (addr \<times> nat)" where
  "GrowingArray_index a index =
     (if index \<ge> ga_size a then Inl Abort else Inr (ga_begin a, unat index))"

definition GrowingArray_length :: "'w::len GrowingArray \<Rightarrow> 'w word" where
  "GrowingArray_length a = ga_size a"

text \<open>
  The two assignments to \<^verbatim>\<open>capacity\<close> in the growth branch of \<^verbatim>\<open>push\<close>, in \<^verbatim>\<open>size_t\<close>
  arithmetic.
\<close>

definition new_capacity :: "'w::len word \<Rightarrow> 'w word" where
  "new_capacity c = ((if c = 0 then 1 else c) * 3 + 1) div 2"

text \<open>
  The same assignments in the two earlier variants of the header, where the class is
  called \<^verbatim>\<open>growing_array\<close>: \<^verbatim>\<open>capacity = (capacity * 3) / 2 + 1\<close> in the first, and
  \<^verbatim>\<open>if (capacity == 0) capacity = 1; capacity = (capacity * 3) / 2\<close> in the second.
\<close>

definition growing_array_push_capacity_1 :: "'w::len word \<Rightarrow> 'w word" where
  "growing_array_push_capacity_1 c = (c * 3) div 2 + 1"

definition growing_array_push_capacity_2 :: "'w::len word \<Rightarrow> 'w word" where
  "growing_array_push_capacity_2 c = ((if c = 0 then 1 else c) * 3) div 2"

text \<open>
  The last two statements of \<^verbatim>\<open>push\<close>, \<^verbatim>\<open>begin[size] = item; ++size;\<close>: the assignment
  reads the object that \<^verbatim>\<open>item\<close> is bound to, in the heap as it is at that moment.
\<close>

definition store_item ::
  "'a item \<Rightarrow> 'w::len GrowingArray \<Rightarrow> 'a heap \<Rightarrow> error + ('w GrowingArray \<times> 'a heap)" where
  "store_item item a h =
     (case item_value item h of
        Inl e \<Rightarrow> Inl e
      | Inr v \<Rightarrow>
          (case assign_at (ga_begin a) (unat (ga_size a)) v h of
             Inl e \<Rightarrow> Inl e
           | Inr h' \<Rightarrow> Inr (a\<lparr>ga_size := ga_size a + 1\<rparr>, h')))"

text \<open>
  \<^verbatim>\<open>void push(const T& item)\<close>. In the growth branch the loop move-constructs the elements
  into the new block, which leaves the moved-from values in the old block; the old block
  is not released.
\<close>

definition push ::
  "nat \<Rightarrow> ('a \<Rightarrow> 'a) \<Rightarrow> 'a item \<Rightarrow> 'w::len GrowingArray \<Rightarrow> 'a heap \<Rightarrow>
     error + ('w GrowingArray \<times> 'a heap)" where
  "push sz mv item a h =
     (if ga_size a = ga_capacity a
      then (let cap = new_capacity (ga_capacity a) in
            case malloc sz (unat (cap * of_nat sz)) h of (new_begin, h1) \<Rightarrow>
              (case for_each [0..<unat (ga_size a)]
                      (move_construct_from mv (ga_begin a) new_begin) h1 of
                 Inl e \<Rightarrow> Inl e
               | Inr h2 \<Rightarrow> store_item item (a\<lparr>ga_capacity := cap, ga_begin := new_begin\<rparr>) h2))
      else store_item item a h)"

definition GrowingArray_destroy ::
  "nat \<Rightarrow> 'w::len GrowingArray \<Rightarrow> 'a heap \<Rightarrow> error + 'a heap" where
  "GrowingArray_destroy int_max a h =
     (case int_loop int_max (unat (ga_size a)) (destroy_at (ga_begin a)) h of
        Inl e \<Rightarrow> Inl e
      | Inr h1 \<Rightarrow> free (ga_begin a) h1)"

text \<open>Pushing the items of a list in order, as a caller does; the first failure ends the run.\<close>

fun push_all ::
  "nat \<Rightarrow> ('a \<Rightarrow> 'a) \<Rightarrow> 'a item list \<Rightarrow> 'w::len GrowingArray \<Rightarrow> 'a heap \<Rightarrow>
     error + ('w GrowingArray \<times> 'a heap)" where
  "push_all sz mv [] a h = Inr (a, h)"
| "push_all sz mv (x # xs) a h =
     (case push sz mv x a h of Inl e \<Rightarrow> Inl e | Inr (a', h') \<Rightarrow> push_all sz mv xs a' h')"

definition empty_heap :: "'a heap" where
  "empty_heap = \<lparr>blocks = [], avail = None, ctors = 0, dtors = 0\<rparr>"

text \<open>Reading through a reference returned by \<^verbatim>\<open>operator[]\<close>.\<close>

definition deref :: "addr \<times> nat \<Rightarrow> 'a heap \<Rightarrow> error + 'a" where
  "deref r h = read_slot (fst r) (snd r) h"

text \<open>
  An element type whose move constructor resets its source, as a handle that gives up
  what it owns does: the value left in the source is \<open>0\<close>.
\<close>

definition moved_to_zero :: "int \<Rightarrow> int" where
  "moved_to_zero v = 0"

text \<open>
  The invariant of the data model: \<open>size \<le> capacity\<close>; the block has room for \<open>capacity\<close>
  elements; the slots at the positions below \<open>size\<close> are constructed objects; the slots at
  the positions from \<open>size\<close> up to \<open>capacity\<close> are raw storage.
\<close>

fun is_object :: "'a slot \<Rightarrow> bool" where
  "is_object (Object v) = True"
| "is_object (Assigned v) = False"
| "is_object Raw = False"

definition ga_inv :: "'w::len GrowingArray \<Rightarrow> 'a heap \<Rightarrow> bool" where
  "ga_inv a h \<longleftrightarrow>
     ga_size a \<le> ga_capacity a \<and>
     unat (ga_capacity a) \<le> length (slots h (ga_begin a)) \<and>
     list_all is_object (take (unat (ga_size a)) (slots h (ga_begin a))) \<and>
     list_all (\<lambda>s. s = Raw)
       (take (unat (ga_capacity a) - unat (ga_size a))
          (drop (unat (ga_size a)) (slots h (ga_begin a))))"

text \<open>
  The shape of a heap: the heap with every stored element value replaced by \<open>()\<close>. Two
  heaps of the same shape differ only in the values of the elements they hold.
\<close>

definition heap_shape :: "'a heap \<Rightarrow> unit heap" where
  "heap_shape h =
     \<lparr>blocks = map (map_option (\<lambda>(n, sl). (n, map (map_slot (\<lambda>v. ())) sl))) (blocks h),
      avail = avail h, ctors = ctors h, dtors = dtors h\<rparr>"

section \<open>Facts about the heap operations\<close>

lemma slots_null: "slots h 0 = []"
  by (simp add: slots_def block_at_def)

lemma slots_beyond: "length (blocks h) < p \<Longrightarrow> slots h p = []"
  by (simp add: slots_def block_at_def)

lemma slot_value_Raw: "slot_value s = None \<longleftrightarrow> s = Raw"
  by (cases s) simp_all

lemma as_object_value: "slot_value s = Some v \<Longrightarrow> as_object s = Object v"
  by (cases s) simp_all

lemma update_slot_Inr:
  assumes "update_slot p i f h = Inr h'"
  shows "i < length (slots h p)"
    and "slots h' = (slots h)(p := (slots h p)[i := f (slots h p ! i)])"
    and "length (blocks h') = length (blocks h)"
    and "avail h' = avail h" and "ctors h' = ctors h" and "dtors h' = dtors h"
proof -
  from assms obtain n sl where b: "block_at h p = Some (n, sl)" and i: "i < length sl"
    and h': "h' = h\<lparr>blocks := (blocks h)[p - 1 := Some (n, sl[i := f (sl ! i)])]\<rparr>"
    by (auto simp: update_slot_def split: option.splits if_splits)
  from b have p: "p \<noteq> 0" "p \<le> length (blocks h)" "blocks h ! (p - 1) = Some (n, sl)"
    by (auto simp: block_at_def split: if_splits)
  have s: "slots h p = sl" using b by (simp add: slots_def)
  show "i < length (slots h p)" using s i by simp
  show "slots h' = (slots h)(p := (slots h p)[i := f (slots h p ! i)])"
  proof
    fix q
    show "slots h' q = ((slots h)(p := (slots h p)[i := f (slots h p ! i)])) q"
    proof (cases "q = p")
      case True
      then show ?thesis using p b by (simp add: h' slots_def block_at_def)
    next
      case False
      then have "q - 1 \<noteq> p - 1 \<or> q = 0" using p by arith
      then show ?thesis using False by (auto simp: h' slots_def block_at_def)
    qed
  qed
  show "length (blocks h') = length (blocks h)" by (simp add: h')
  show "avail h' = avail h" "ctors h' = ctors h" "dtors h' = dtors h" by (simp_all add: h')
qed

lemma update_slot_ok: "i < length (slots h p) \<Longrightarrow> \<exists>h'. update_slot p i f h = Inr h'"
  by (auto simp: update_slot_def slots_def split: option.splits)

lemma update_slot_error: "update_slot p i f h = Inl e \<Longrightarrow> e = Undefined"
  by (auto simp: update_slot_def split: option.splits if_splits)

lemma update_slot_same:
  assumes "i < length (slots h p)" and "f (slots h p ! i) = slots h p ! i"
  shows "update_slot p i f h = Inr h"
proof -
  from assms(1) obtain n sl where b: "block_at h p = Some (n, sl)" and s: "slots h p = sl"
    by (auto simp: slots_def split: option.splits)
  from b have p: "p \<noteq> 0" "p \<le> length (blocks h)" "blocks h ! (p - 1) = Some (n, sl)"
    by (auto simp: block_at_def split: if_splits)
  have "(blocks h)[p - 1 := Some (n, sl[i := f (sl ! i)])] = blocks h"
    using assms(2) s p by (simp add: list_update_same_conv)
  then show ?thesis using b assms(1) s by (simp add: update_slot_def)
qed

lemma malloc_cases:
  assumes "malloc sz n h = (p, h')"
  shows "(p = 0 \<and> h' = h \<and> \<not> can_alloc n h) \<or>
         (p = Suc (length (blocks h)) \<and> slots h' = (slots h)(p := replicate (n div sz) Raw) \<and>
          length (blocks h') = Suc (length (blocks h)) \<and> can_alloc n h \<and>
          avail h' = map_option (\<lambda>m. m - n) (avail h) \<and> ctors h' = ctors h \<and> dtors h' = dtors h)"
proof (cases "can_alloc n h")
  case False
  then show ?thesis using assms by (auto simp: malloc_def)
next
  case True
  then have p: "p = Suc (length (blocks h))"
    and h': "h' = h\<lparr>blocks := blocks h @ [Some (n, replicate (n div sz) Raw)],
              avail := map_option (\<lambda>m. m - n) (avail h)\<rparr>"
    using assms by (auto simp: malloc_def)
  have "slots h' q = ((slots h)(p := replicate (n div sz) Raw)) q" for q
    by (auto simp: h' p slots_def block_at_def nth_append)
  then have "slots h' = (slots h)(p := replicate (n div sz) Raw)" by blast
  then show ?thesis using True by (simp add: p h')
qed

lemma malloc_ok:
  assumes "can_alloc n h"
  shows "\<exists>h'. malloc sz n h = (Suc (length (blocks h)), h')"
  using assms by (simp add: malloc_def)

lemma for_each_append:
  "for_each (xs @ ys) body s =
     (case for_each xs body s of Inl e \<Rightarrow> Inl e | Inr s' \<Rightarrow> for_each ys body s')"
  by (induction xs arbitrary: s) (auto split: sum.splits)

lemma assign_at_Inr:
  assumes "assign_at p i v h = Inr h'"
  shows "i < length (slots h p)"
    and "slots h' = (slots h)(p := (slots h p)[i := assign_slot v (slots h p ! i)])"
    and "length (blocks h') = length (blocks h)"
    and "avail h' = avail h" and "ctors h' = ctors h" and "dtors h' = dtors h"
  using update_slot_Inr [of p i "assign_slot v" h h'] assms by (simp_all add: assign_at_def)

lemma assign_at_ok: "i < length (slots h p) \<Longrightarrow> \<exists>h'. assign_at p i v h = Inr h'"
  by (simp add: assign_at_def update_slot_ok)

lemma construct_at_Inr:
  assumes "construct_at p i v h = Inr h'"
  shows "i < length (slots h p)"
    and "slots h' = (slots h)(p := (slots h p)[i := Object v])"
    and "length (blocks h') = length (blocks h)"
    and "avail h' = avail h" and "ctors h' = Suc (ctors h)" and "dtors h' = dtors h"
proof -
  from assms obtain h1 where h1: "update_slot p i (\<lambda>s. Object v) h = Inr h1"
    and h': "h' = h1\<lparr>ctors := Suc (ctors h1)\<rparr>"
    by (auto simp: construct_at_def split: sum.splits)
  have s: "slots h' = slots h1" by (rule ext) (simp add: h' slots_def block_at_def)
  show "i < length (slots h p)" using update_slot_Inr(1) [OF h1] .
  show "slots h' = (slots h)(p := (slots h p)[i := Object v])"
    using update_slot_Inr(2) [OF h1] s by simp
  show "length (blocks h') = length (blocks h)" using update_slot_Inr(3) [OF h1] by (simp add: h')
  show "avail h' = avail h" using update_slot_Inr(4) [OF h1] by (simp add: h')
  show "ctors h' = Suc (ctors h)" using update_slot_Inr(5) [OF h1] by (simp add: h')
  show "dtors h' = dtors h" using update_slot_Inr(6) [OF h1] by (simp add: h')
qed

lemma construct_at_ok: "i < length (slots h p) \<Longrightarrow> \<exists>h'. construct_at p i v h = Inr h'"
  using update_slot_ok [of i h p "\<lambda>s. Object v"] by (auto simp: construct_at_def)

lemma read_slot_Inr:
  "read_slot p i h = Inr v \<longleftrightarrow> i < length (slots h p) \<and> slot_value (slots h p ! i) = Some v"
  by (auto simp: read_slot_def split: option.splits)

lemma read_slot_error: "read_slot p i h = Inl e \<Longrightarrow> e = Undefined"
  by (auto simp: read_slot_def split: option.splits if_splits)

lemma read_slot_cong: "slots h' p = slots h p \<Longrightarrow> read_slot p i h' = read_slot p i h"
  by (simp add: read_slot_def)

lemma move_construct_from_Inr:
  assumes "move_construct_from mv src dst i h = Inr h'" and "src \<noteq> dst"
  shows "i < length (slots h src)" and "slots h src ! i \<noteq> Raw"
    and "i < length (slots h dst)"
    and "slots h' = (slots h)(dst := (slots h dst)[i := as_object (slots h src ! i)],
                              src := (slots h src)[i := map_slot mv (slots h src ! i)])"
    and "length (blocks h') = length (blocks h)"
    and "avail h' = avail h" and "ctors h' = Suc (ctors h)" and "dtors h' = dtors h"
proof -
  from assms(1) obtain v h1 where r: "read_slot src i h = Inr v"
    and c: "construct_at dst i v h = Inr h1"
    and u: "update_slot src i (map_slot mv) h1 = Inr h'"
    by (auto simp: move_construct_from_def split: sum.splits)
  from r have v: "i < length (slots h src)" "slot_value (slots h src ! i) = Some v"
    by (simp_all add: read_slot_Inr)
  note ca = construct_at_Inr [OF c]
  note us = update_slot_Inr [OF u]
  have s1: "slots h1 src = slots h src" using ca(2) assms(2) by simp
  show "i < length (slots h src)" by (rule v)
  show "slots h src ! i \<noteq> Raw" using v(2) by (auto simp: slot_value_Raw [symmetric])
  show "i < length (slots h dst)" by (rule ca(1))
  show "slots h' = (slots h)(dst := (slots h dst)[i := as_object (slots h src ! i)],
                              src := (slots h src)[i := map_slot mv (slots h src ! i)])"
    using us(2) ca(2) s1 as_object_value [OF v(2)] by simp
  show "length (blocks h') = length (blocks h)" "avail h' = avail h"
    "ctors h' = Suc (ctors h)" "dtors h' = dtors h"
    using ca(3-6) us(3-6) by simp_all
qed

lemma move_construct_from_ok:
  assumes "i < length (slots h src)" "slots h src ! i \<noteq> Raw" "i < length (slots h dst)"
    and "src \<noteq> dst"
  shows "\<exists>h'. move_construct_from mv src dst i h = Inr h'"
proof -
  from assms(1,2) obtain v where r: "read_slot src i h = Inr v"
    by (cases "slots h src ! i") (auto simp: read_slot_Inr)
  from construct_at_ok [OF assms(3)] obtain h1 where c: "construct_at dst i v h = Inr h1"
    by blast
  have "slots h1 src = slots h src" using construct_at_Inr(2) [OF c] assms(4) by simp
  then have "i < length (slots h1 src)" using assms(1) by simp
  from update_slot_ok [OF this] show ?thesis using r c by (simp add: move_construct_from_def)
qed

lemma move_construct_from_error:
  "move_construct_from mv src dst i h = Inl e \<Longrightarrow> e = Undefined"
  by (auto simp: move_construct_from_def construct_at_def split: sum.splits
      dest: read_slot_error update_slot_error)

lemma copy_is_move_id:
  "copy_construct_from src dst i h = move_construct_from id src dst i h"
proof (cases "read_slot src i h")
  case (Inl e)
  then show ?thesis by (simp add: copy_construct_from_def move_construct_from_def)
next
  case (Inr v)
  show ?thesis
  proof (cases "construct_at dst i v h")
    case (Inl e)
    then show ?thesis using Inr by (simp add: copy_construct_from_def move_construct_from_def)
  next
    case c: (Inr h1)
    have "length (slots h1 src) = length (slots h src)"
      using construct_at_Inr(2) [OF c] by (cases "src = dst") simp_all
    then have "i < length (slots h1 src)" using Inr by (simp add: read_slot_Inr)
    then have "update_slot src i (map_slot id) h1 = Inr h1"
      by (rule update_slot_same) (simp add: slot.map_id)
    then show ?thesis using Inr c by (simp add: copy_construct_from_def move_construct_from_def)
  qed
qed

lemma map_take_drop_step:
  assumes "n < length xs" "n < length ys"
  shows "(map g (take n xs) @ drop n ys)[n := g (xs ! n)] =
           map g (take (Suc n) xs) @ drop (Suc n) ys"
proof -
  have "drop n ys = ys ! n # drop (Suc n) ys" using assms by (simp add: Cons_nth_drop_Suc)
  then show ?thesis using assms by (simp add: list_update_append take_Suc_conv_app_nth)
qed

lemma move_loop_Inr:
  assumes "for_each [0..<n] (move_construct_from mv src dst) h = Inr h'" and "src \<noteq> dst"
  shows "n \<le> length (slots h src) \<and> n \<le> length (slots h dst) \<and>
         (\<forall>i<n. slots h src ! i \<noteq> Raw) \<and>
         slots h' = (slots h)
           (dst := map as_object (take n (slots h src)) @ drop n (slots h dst),
            src := map (map_slot mv) (take n (slots h src)) @ drop n (slots h src)) \<and>
         length (blocks h') = length (blocks h) \<and> avail h' = avail h \<and>
         ctors h' = ctors h + n \<and> dtors h' = dtors h"
  using assms
proof (induction n arbitrary: h')
  case 0
  then show ?case by simp
next
  case (Suc n)
  let ?S = "slots h src" and ?D = "slots h dst"
  from Suc.prems(1) obtain h1 where
    l: "for_each [0..<n] (move_construct_from mv src dst) h = Inr h1"
    and c: "move_construct_from mv src dst n h1 = Inr h'"
    by (auto simp: for_each_append split: sum.splits)
  note ih = Suc.IH [OF l Suc.prems(2)]
  have sl1: "slots h1 = (slots h)
      (dst := map as_object (take n ?S) @ drop n ?D,
       src := map (map_slot mv) (take n ?S) @ drop n ?S)"
    using ih by blast
  have s1: "slots h1 src = map (map_slot mv) (take n ?S) @ drop n ?S"
    and d1: "slots h1 dst = map as_object (take n ?S) @ drop n ?D"
    using Suc.prems(2) by (simp_all add: sl1)
  have lens: "n \<le> length ?S" "n \<le> length ?D" using ih by simp_all
  note cf = move_construct_from_Inr [OF c Suc.prems(2)]
  have ns: "n < length ?S" using cf(1) s1 lens by simp
  have nd: "n < length ?D" using cf(3) d1 lens by simp
  have e1: "slots h1 src ! n = ?S ! n" using s1 ns lens by (simp add: nth_append)
  then have nr: "?S ! n \<noteq> Raw" using cf(2) by simp
  have "slots h' = (slots h1)
      (dst := (map as_object (take n ?S) @ drop n ?D)[n := as_object (?S ! n)],
       src := (map (map_slot mv) (take n ?S) @ drop n ?S)[n := map_slot mv (?S ! n)])"
    using cf(4) s1 d1 e1 by simp
  then have "slots h' = (slots h1)
      (dst := map as_object (take (Suc n) ?S) @ drop (Suc n) ?D,
       src := map (map_slot mv) (take (Suc n) ?S) @ drop (Suc n) ?S)"
    by (simp only: map_take_drop_step [OF ns nd] map_take_drop_step [OF ns ns])
  then have fin: "slots h' = (slots h)
      (dst := map as_object (take (Suc n) ?S) @ drop (Suc n) ?D,
       src := map (map_slot mv) (take (Suc n) ?S) @ drop (Suc n) ?S)"
    using Suc.prems(2) by (auto simp: sl1 fun_eq_iff)
  have nall: "\<forall>i<Suc n. ?S ! i \<noteq> Raw" using ih nr by (auto simp: less_Suc_eq)
  have le: "Suc n \<le> length ?S" "Suc n \<le> length ?D" using ns nd by simp_all
  have "length (blocks h1) = length (blocks h)" "avail h1 = avail h"
    "ctors h1 = ctors h + n" "dtors h1 = dtors h"
    using ih by simp_all
  then have fr: "length (blocks h') = length (blocks h)" "avail h' = avail h"
    "ctors h' = ctors h + Suc n" "dtors h' = dtors h"
    using cf(5-8) by simp_all
  show ?case by (intro conjI) (fact le fin nall fr)+
qed

lemma move_loop_ok:
  assumes "n \<le> length (slots h src)" "n \<le> length (slots h dst)"
    and "\<forall>i<n. slots h src ! i \<noteq> Raw" and "src \<noteq> dst"
  shows "\<exists>h'. for_each [0..<n] (move_construct_from mv src dst) h = Inr h'"
  using assms
proof (induction n)
  case 0
  then show ?case by simp
next
  case (Suc n)
  then obtain h1 where l: "for_each [0..<n] (move_construct_from mv src dst) h = Inr h1"
    by auto
  note f = move_loop_Inr [OF l Suc.prems(4)]
  have s1: "slots h1 src = map (map_slot mv) (take n (slots h src)) @ drop n (slots h src)"
    and d1: "slots h1 dst = map as_object (take n (slots h src)) @ drop n (slots h dst)"
    using f Suc.prems(4) by simp_all
  have "n < length (slots h1 src)" "n < length (slots h1 dst)"
    using s1 d1 Suc.prems(1,2) by simp_all
  moreover have "slots h1 src ! n = slots h src ! n"
    using s1 Suc.prems(1) by (simp add: nth_append)
  then have "slots h1 src ! n \<noteq> Raw" using Suc.prems(3) by simp
  ultimately have "\<exists>h'. move_construct_from mv src dst n h1 = Inr h'"
    using Suc.prems(4) by (intro move_construct_from_ok)
  then show ?case using l by (auto simp: for_each_append)
qed

lemma move_loop_Inr0:
  assumes "for_each [0..<n] (move_construct_from mv src dst) h = Inr h'"
    and "n = 0 \<or> src \<noteq> dst"
  shows "n \<le> length (slots h src) \<and> n \<le> length (slots h dst) \<and>
         (\<forall>i<n. slots h src ! i \<noteq> Raw) \<and>
         slots h' = (slots h)
           (src := map (map_slot mv) (take n (slots h src)) @ drop n (slots h src),
            dst := map as_object (take n (slots h src)) @ drop n (slots h dst)) \<and>
         length (blocks h') = length (blocks h) \<and> avail h' = avail h \<and>
         ctors h' = ctors h + n \<and> dtors h' = dtors h"
proof (cases "n = 0")
  case True
  then show ?thesis using assms(1) by simp
next
  case False
  then have d: "src \<noteq> dst" using assms(2) by simp
  then show ?thesis using move_loop_Inr [OF assms(1) d] by (simp add: fun_upd_twist)
qed

lemma move_loop_first:
  assumes "for_each [0..<n] (move_construct_from mv src dst) h = Inr h'" and "0 < n"
  shows "0 < length (slots h src) \<and> slots h src ! 0 \<noteq> Raw \<and> 0 < length (slots h dst)"
proof -
  from assms(2) have "[0..<n] = 0 # [Suc 0..<n]" by (simp add: upt_conv_Cons)
  with assms(1) obtain h1 where m: "move_construct_from mv src dst 0 h = Inr h1"
    by (auto split: sum.splits)
  then obtain v h0 where r: "read_slot src 0 h = Inr v" and c: "construct_at dst 0 v h = Inr h0"
    by (auto simp: move_construct_from_def split: sum.splits)
  from r have "0 < length (slots h src)" "slots h src ! 0 \<noteq> Raw"
    by (auto simp: read_slot_Inr slot_value_Raw [symmetric])
  then show ?thesis using construct_at_Inr(1) [OF c] by simp
qed

lemma move_loop_error:
  "for_each js (move_construct_from mv src dst) s = Inl e \<Longrightarrow> e = Undefined"
  by (induction js arbitrary: s) (auto split: sum.splits dest: move_construct_from_error)

lemma copy_loop_is_move_loop:
  "for_each js (copy_construct_from src dst) h = for_each js (move_construct_from id src dst) h"
  by (induction js arbitrary: h) (simp_all add: copy_is_move_id split: sum.splits)

section \<open>Facts about \<^verbatim>\<open>size_t\<close> arithmetic\<close>

lemma unat_two:
  assumes "(2::nat) < 2 ^ LENGTH('w::len)"
  shows "unat (2 :: 'w word) = 2"
proof -
  have "(2 :: 'w word) = of_nat 2" by simp
  then have "unat (2 :: 'w word) = 2 mod 2 ^ LENGTH('w)" by (simp only: unat_of_nat)
  then show ?thesis using assms by simp
qed

lemma unat_new_capacity:
  fixes c :: "'w::len word"
  assumes "unat c * 3 + 1 < 2 ^ LENGTH('w)" and "c \<noteq> 0"
  shows "unat (new_capacity c) = (unat c * 3 + 1) div 2"
proof -
  have "c * 3 + 1 = (of_nat (unat c * 3 + 1) :: 'w word)" by simp
  then have "unat (c * 3 + 1) = (unat c * 3 + 1) mod 2 ^ LENGTH('w)"
    by (simp only: unat_of_nat)
  then have u: "unat (c * 3 + 1) = unat c * 3 + 1" using assms(1) by simp
  have "0 < unat c" using assms(2) by (simp add: unat_gt_0)
  then have "(2::nat) < 2 ^ LENGTH('w)" using assms(1) by linarith
  then have two: "unat (2 :: 'w word) = 2" by (rule unat_two)
  have n: "new_capacity c = (c * 3 + 1) div 2" using assms(2) by (simp add: new_capacity_def)
  show ?thesis by (simp only: n unat_div u two)
qed

lemma new_capacity_0:
  assumes "4 < (2::nat) ^ LENGTH('w::len)"
  shows "unat (new_capacity (0 :: 'w word)) = 2"
proof -
  have "(1 * 3 + 1 :: 'w word) = of_nat 4" by simp
  then have "unat (1 * 3 + 1 :: 'w word) = 4 mod 2 ^ LENGTH('w)"
    by (simp only: unat_of_nat)
  then have u: "unat (1 * 3 + 1 :: 'w word) = 4" using assms by simp
  have "(2::nat) < 2 ^ LENGTH('w)" using assms by linarith
  then have two: "unat (2 :: 'w word) = 2" by (rule unat_two)
  have n: "new_capacity (0 :: 'w word) = (1 * 3 + 1) div 2" by (simp add: new_capacity_def)
  show ?thesis by (simp only: n unat_div u two)
qed

lemma unat_mult_sizeof_le:
  fixes c :: "'w::len word"
  shows "unat (c * of_nat sz) div sz \<le> unat c"
proof (cases "sz = 0")
  case True
  then show ?thesis by simp
next
  case False
  have "unat (c * of_nat sz) \<le> unat c * unat (of_nat sz :: 'w word)"
    by (simp add: unat_word_ariths)
  also have "\<dots> \<le> unat c * sz"
    by (simp add: unat_of_nat)
  finally have "unat (c * of_nat sz) div sz \<le> (unat c * sz) div sz"
    by (rule div_le_mono)
  then show ?thesis using False by simp
qed

lemma unat_mult_sizeof:
  fixes c :: "'w::len word"
  assumes "unat c * sz < 2 ^ LENGTH('w)" and "0 < sz"
  shows "unat (c * of_nat sz) div sz = unat c"
proof (cases "c = 0")
  case True
  then show ?thesis by simp
next
  case False
  then have "0 < unat c" by (simp add: unat_gt_0)
  then have "sz \<le> unat c * sz" by (cases "unat c") simp_all
  then have "sz < 2 ^ LENGTH('w)" using assms(1) by linarith
  then have "unat (of_nat sz :: 'w word) = sz" by (simp add: unat_of_nat)
  then have "unat (c * of_nat sz) = unat c * sz"
    using assms(1) by (simp add: unat_word_ariths)
  then show ?thesis using assms(2) by simp
qed

lemma unat_inc_less:
  fixes s c :: "'w::len word"
  assumes "unat s < unat c"
  shows "unat (s + 1) = Suc (unat s)"
proof -
  have "unat c < 2 ^ LENGTH('w)" by (rule unsigned_less)
  with assms have "unat s + 1 < 2 ^ LENGTH('w)" by linarith
  moreover have "s + 1 = (of_nat (unat s + 1) :: 'w word)" by simp
  then have "unat (s + 1) = (unat s + 1) mod 2 ^ LENGTH('w)" by (simp only: unat_of_nat)
  ultimately show ?thesis by simp
qed


section \<open>Facts about push\<close>

lemma item_value_error: "item_value item h = Inl e \<Longrightarrow> e = Undefined"
  by (cases item) (auto dest: read_slot_error)

lemma item_value_cong:
  "(\<And>p. slots h' p = slots h p) \<Longrightarrow> item_value item h' = item_value item h"
  by (cases item) (simp_all add: read_slot_def)

lemma store_item_Inr:
  assumes "store_item item a h = Inr (a', h')"
  shows "a' = a\<lparr>ga_size := ga_size a + 1\<rparr>"
    and "unat (ga_size a) < length (slots h (ga_begin a))"
    and "\<exists>v. item_value item h = Inr v \<and>
           slots h' = (slots h)(ga_begin a := (slots h (ga_begin a))
             [unat (ga_size a) := assign_slot v (slots h (ga_begin a) ! unat (ga_size a))])"
    and "length (blocks h') = length (blocks h)"
    and "avail h' = avail h" and "ctors h' = ctors h" and "dtors h' = dtors h"
proof -
  from assms obtain v where iv: "item_value item h = Inr v"
    and s: "assign_at (ga_begin a) (unat (ga_size a)) v h = Inr h'"
    and a': "a' = a\<lparr>ga_size := ga_size a + 1\<rparr>"
    by (auto simp: store_item_def split: sum.splits)
  note as = assign_at_Inr [OF s]
  show "a' = a\<lparr>ga_size := ga_size a + 1\<rparr>" by (rule a')
  show "unat (ga_size a) < length (slots h (ga_begin a))" by (rule as(1))
  show "\<exists>v. item_value item h = Inr v \<and>
           slots h' = (slots h)(ga_begin a := (slots h (ga_begin a))
             [unat (ga_size a) := assign_slot v (slots h (ga_begin a) ! unat (ga_size a))])"
    using iv as(2) by blast
  show "length (blocks h') = length (blocks h)"
    "avail h' = avail h" "ctors h' = ctors h" "dtors h' = dtors h"
    using as(3-6) by simp_all
qed

lemma store_item_ok:
  assumes "item_value item h = Inr v" and "unat (ga_size a) < length (slots h (ga_begin a))"
  shows "\<exists>h'. store_item item a h = Inr (a\<lparr>ga_size := ga_size a + 1\<rparr>, h')"
  using assign_at_ok [OF assms(2), of v] assms(1) by (auto simp: store_item_def)

lemma store_item_error: "store_item item a h = Inl e \<Longrightarrow> e = Undefined"
  by (auto simp: store_item_def assign_at_def split: sum.splits
      dest: update_slot_error item_value_error)

lemma push_nogrow:
  "ga_size a \<noteq> ga_capacity a \<Longrightarrow> push sz mv item a h = store_item item a h"
  by (simp add: push_def)

lemma push_grow_Inr:
  fixes a :: "'w::len GrowingArray"
  assumes "push sz mv item a h = Inr (a', h')" and "ga_size a = ga_capacity a"
  defines "n \<equiv> unat (ga_size a)"
    and "cap \<equiv> new_capacity (ga_capacity a)"
    and "nb \<equiv> Suc (length (blocks h))"
  defines "m \<equiv> unat (cap * of_nat sz) div sz"
  shows "a' = a\<lparr>ga_capacity := cap, ga_begin := nb, ga_size := ga_size a + 1\<rparr>"
    and "n < m"
    and "n \<le> length (slots h (ga_begin a))"
    and "\<forall>i<n. slots h (ga_begin a) ! i \<noteq> Raw"
    and "\<exists>h2 v. slots h2 = (slots h)
             (ga_begin a := map (map_slot mv) (take n (slots h (ga_begin a))) @
                            drop n (slots h (ga_begin a)),
              nb := map as_object (take n (slots h (ga_begin a))) @ replicate (m - n) Raw) \<and>
           item_value item h2 = Inr v \<and>
           slots h' = (slots h2)(nb := (slots h2 nb)[n := Assigned v])"
    and "length (blocks h') = Suc (length (blocks h))"
    and "can_alloc (unat (cap * of_nat sz)) h"
    and "avail h' = map_option (\<lambda>x. x - unat (cap * of_nat sz)) (avail h)"
    and "ctors h' = ctors h + n" and "dtors h' = dtors h"
proof -
  let ?S = "slots h (ga_begin a)"
  obtain p h1 where ma: "malloc sz (unat (cap * of_nat sz)) h = (p, h1)" by fastforce
  with assms(1,2) obtain h2 where
    loop: "for_each [0..<n] (move_construct_from mv (ga_begin a) p) h1 = Inr h2"
    and st: "store_item item (a\<lparr>ga_capacity := cap, ga_begin := p\<rparr>) h2 = Inr (a', h')"
    by (auto simp: push_def Let_def n_def cap_def split: sum.splits)
  note s = store_item_Inr [OF st]
  have ne: "n = 0 \<or> ga_begin a \<noteq> p"
  proof (cases "n = 0")
    case False
    then have f: "0 < length (slots h1 (ga_begin a))" "slots h1 (ga_begin a) ! 0 \<noteq> Raw"
      using move_loop_first [OF loop] by simp_all
    have "ga_begin a \<noteq> p"
    proof
      assume e: "ga_begin a = p"
      from malloc_cases [OF ma] f e show False
        by (auto simp: slots_null)
    qed
    then show ?thesis ..
  qed simp
  note l = move_loop_Inr0 [OF loop ne]
  have np: "n < length (slots h2 p)" using s(2) by (simp add: n_def)
  have l2: "length (slots h2 p) = length (slots h1 p)" using l by simp
  have p0: "p \<noteq> 0"
  proof
    assume "p = 0"
    with malloc_cases [OF ma] have "slots h1 p = []" by (auto simp: slots_null)
    with np l2 show False by simp
  qed
  with malloc_cases [OF ma] have p: "p = nb"
    and s1: "slots h1 = (slots h)(nb := replicate m Raw)"
    and b1: "length (blocks h1) = Suc (length (blocks h))"
    and ca: "can_alloc (unat (cap * of_nat sz)) h"
    and a1: "avail h1 = map_option (\<lambda>x. x - unat (cap * of_nat sz)) (avail h)"
    and c1: "ctors h1 = ctors h" "dtors h1 = dtors h"
    by (auto simp: nb_def m_def)
  show "a' = a\<lparr>ga_capacity := cap, ga_begin := nb, ga_size := ga_size a + 1\<rparr>"
    using s(1) p by simp
  show nm: "n < m" using np l2 s1 p by simp
  have src: "n = 0 \<or> slots h1 (ga_begin a) = ?S"
    using ne s1 p by auto
  show nl: "n \<le> length ?S" using l src by auto
  show "\<forall>i<n. ?S ! i \<noteq> Raw" using l src by auto
  have tk: "take n (slots h1 (ga_begin a)) = take n ?S" using src by auto
  have mvs: "map (map_slot mv) (take n (slots h1 (ga_begin a))) @ drop n (slots h1 (ga_begin a)) =
      map (map_slot mv) (take n ?S) @ drop n (slots h1 (ga_begin a))"
    by (simp only: tk)
  have s2: "slots h2 = (slots h)
      (ga_begin a := map (map_slot mv) (take n ?S) @ drop n ?S,
       nb := map as_object (take n ?S) @ replicate (m - n) Raw)"
  proof (cases "n = 0")
    case True
    then have "slots h2 = slots h1" using l by simp
    then show ?thesis using True s1 by (simp add: fun_eq_iff)
  next
    case False
    then have d: "ga_begin a \<noteq> nb" and e: "slots h1 (ga_begin a) = ?S" using ne src p by simp_all
    have "slots h2 = (slots h1)
        (ga_begin a := map (map_slot mv) (take n ?S) @ drop n ?S,
         nb := map as_object (take n ?S) @ drop n (slots h1 nb))"
      using l e p by simp
    then show ?thesis using d by (simp add: s1 fun_eq_iff)
  qed
  from s(3) obtain v where iv: "item_value item h2 = Inr v"
    and sl': "slots h' = (slots h2)(nb := (slots h2 nb)[n := assign_slot v (slots h2 nb ! n)])"
    by (auto simp: p n_def)
  have "slots h2 nb ! n = Raw" using s2 nl nm by (simp add: nth_append)
  then have "slots h' = (slots h2)(nb := (slots h2 nb)[n := Assigned v])" using sl' by simp
  then show "\<exists>h2 v. slots h2 = (slots h)
             (ga_begin a := map (map_slot mv) (take n ?S) @ drop n ?S,
              nb := map as_object (take n ?S) @ replicate (m - n) Raw) \<and>
           item_value item h2 = Inr v \<and>
           slots h' = (slots h2)(nb := (slots h2 nb)[n := Assigned v])"
    using s2 iv by blast
  show "length (blocks h') = Suc (length (blocks h))" using s(4) l b1 by simp
  show "can_alloc (unat (cap * of_nat sz)) h" by (rule ca)
  show "avail h' = map_option (\<lambda>x. x - unat (cap * of_nat sz)) (avail h)" using s(5) l a1 by simp
  show "ctors h' = ctors h + n" "dtors h' = dtors h" using s(6,7) l c1 by simp_all
qed

lemma push_grow_ok:
  fixes a :: "'w::len GrowingArray"
  assumes eq: "ga_size a = ga_capacity a"
    and mem: "can_alloc (unat (new_capacity (ga_capacity a) * of_nat sz)) h"
    and room: "unat (ga_size a) < unat (new_capacity (ga_capacity a) * of_nat sz) div sz"
    and len: "unat (ga_size a) \<le> length (slots h (ga_begin a))"
    and el: "\<forall>i<unat (ga_size a). slots h (ga_begin a) ! i \<noteq> Raw"
    and it: "\<And>h2. slots h2 = (slots h)
               (ga_begin a := map (map_slot mv) (take (unat (ga_size a)) (slots h (ga_begin a))) @
                              drop (unat (ga_size a)) (slots h (ga_begin a)),
                Suc (length (blocks h)) :=
                  map as_object (take (unat (ga_size a)) (slots h (ga_begin a))) @
                  replicate (unat (new_capacity (ga_capacity a) * of_nat sz) div sz
                             - unat (ga_size a)) Raw)
             \<Longrightarrow> \<exists>v. item_value item h2 = Inr v"
  shows "\<exists>a' h'. push sz mv item a h = Inr (a', h')"
proof -
  define n where "n = unat (ga_size a)"
  define cap where "cap = new_capacity (ga_capacity a)"
  define nb where "nb = Suc (length (blocks h))"
  define m where "m = unat (cap * of_nat sz) div sz"
  let ?S = "slots h (ga_begin a)"
  from malloc_ok [OF mem] obtain h1 where
    ma: "malloc sz (unat (cap * of_nat sz)) h = (nb, h1)" by (auto simp: cap_def nb_def)
  from malloc_cases [OF ma] have s1: "slots h1 = (slots h)(nb := replicate m Raw)"
    by (simp add: nb_def m_def)
  have ne: "n = 0 \<or> ga_begin a \<noteq> nb"
  proof (cases "n = 0")
    case False
    then have "?S \<noteq> []" using len by (auto simp: n_def)
    then have "ga_begin a \<noteq> nb" using slots_beyond [of h nb] by (auto simp: nb_def)
    then show ?thesis ..
  qed simp
  obtain h2 where loop: "for_each [0..<n] (move_construct_from mv (ga_begin a) nb) h1 = Inr h2"
  proof (cases "n = 0")
    case True
    then show ?thesis using that by simp
  next
    case False
    then have d: "ga_begin a \<noteq> nb" using ne by simp
    then have "slots h1 (ga_begin a) = ?S" by (simp add: s1)
    moreover have "n \<le> length (slots h1 nb)" using room by (simp add: s1 n_def m_def cap_def)
    ultimately show ?thesis using move_loop_ok [of n h1 "ga_begin a" nb mv] len el d that
      by (auto simp: n_def)
  qed
  note l = move_loop_Inr0 [OF loop ne]
  have nm: "n < m" using room by (simp add: n_def m_def cap_def)
  have s2: "slots h2 = (slots h)
      (ga_begin a := map (map_slot mv) (take n ?S) @ drop n ?S,
       nb := map as_object (take n ?S) @ replicate (m - n) Raw)"
  proof (cases "n = 0")
    case True
    then have "slots h2 = slots h1" using l by simp
    then show ?thesis using True s1 by (simp add: fun_eq_iff)
  next
    case False
    then have d: "ga_begin a \<noteq> nb" using ne by simp
    then have e: "slots h1 (ga_begin a) = ?S" by (simp add: s1)
    have "slots h2 = (slots h1)
        (ga_begin a := map (map_slot mv) (take n ?S) @ drop n ?S,
         nb := map as_object (take n ?S) @ drop n (slots h1 nb))"
      using l e by simp
    then show ?thesis using d by (simp add: s1 fun_eq_iff)
  qed
  from it [OF s2 [unfolded n_def nb_def m_def cap_def]] obtain v where
    iv: "item_value item h2 = Inr v" by blast
  have "length (slots h2 nb) = m" using s2 len nm by (simp add: n_def)
  then have "unat (ga_size (a\<lparr>ga_capacity := cap, ga_begin := nb\<rparr>))
      < length (slots h2 (ga_begin (a\<lparr>ga_capacity := cap, ga_begin := nb\<rparr>)))"
    using nm by (simp add: n_def)
  from store_item_ok [OF iv this] show ?thesis
    using ma loop eq by (auto simp: push_def Let_def cap_def n_def)
qed

lemma push_error:
  assumes "push sz mv item a h = Inl e"
  shows "e = Undefined"
proof (cases "ga_size a = ga_capacity a")
  case False
  then show ?thesis using assms store_item_error [of item a h e] by (simp add: push_nogrow)
next
  case True
  obtain p h1 where ma: "malloc sz (unat (new_capacity (ga_capacity a) * of_nat sz)) h = (p, h1)"
    by fastforce
  show ?thesis
  proof (cases "for_each [0..<unat (ga_size a)] (move_construct_from mv (ga_begin a) p) h1")
    case (Inl e')
    then have "e' = Undefined" by (rule move_loop_error)
    then show ?thesis using assms True ma Inl by (simp add: push_def Let_def)
  next
    case (Inr h2)
    then show ?thesis
      using assms True ma store_item_error [of item _ h2 e] by (simp add: push_def Let_def)
  qed
qed

lemma take_Suc_update:
  assumes "n < length xs"
  shows "take (Suc n) (xs[n := v]) = take n xs @ [v]"
  using assms by (simp add: take_Suc_conv_app_nth)

lemma slot_value_assign: "slot_value (assign_slot v s) = Some v"
  by (cases s) simp_all

lemma slot_value_as_object: "slot_value (as_object s) = slot_value s"
  by (cases s) simp_all

lemma values_nth:
  assumes "map slot_value (take (length ys) xs) = map Some ys" and "i < length ys"
  shows "i < length xs" and "slot_value (xs ! i) = Some (ys ! i)"
proof -
  have "length (take (length ys) xs) = length ys"
    using assms(1) by (metis length_map)
  then show l: "i < length xs" using assms(2) by simp
  have "map slot_value (take (length ys) xs) ! i = Some (ys ! i)"
    using assms by simp
  moreover have "i < length (take (length ys) xs)" using l assms(2) by simp
  ultimately show "slot_value (xs ! i) = Some (ys ! i)" using assms(2) by simp
qed

lemma item_stable:
  assumes "item_value it h0 = Inr v"
    and "\<forall>q\<le>length (blocks h0). slots h q = slots h0 q"
  shows "item_value it h = Inr v"
proof (cases it)
  case (Val w)
  then show ?thesis using assms(1) by simp
next
  case (Ref p i)
  then have r: "i < length (slots h0 p)" "slot_value (slots h0 p ! i) = Some v"
    using assms(1) by (simp_all add: read_slot_Inr)
  then have "p \<le> length (blocks h0)" using slots_beyond [of h0 p] by (cases "p \<le> length (blocks h0)") auto
  then have "slots h p = slots h0 p" using assms(2) by simp
  then show ?thesis using Ref r by (simp add: read_slot_Inr)
qed

lemma budget_step:
  fixes X Y B m :: nat
  assumes "3 * Y \<le> 2 * X" and "B \<le> m + 3 * Y" and "3 * X \<le> B"
  shows "X \<le> m" and "B \<le> (m - X) + 3 * X"
  using assms by linarith+

lemma can_alloc_mono: "can_alloc n h \<Longrightarrow> n' \<le> n \<Longrightarrow> can_alloc n' h"
  by (auto simp: can_alloc_def split: option.splits)

lemma push_step:
  fixes a :: "'w::len GrowingArray"
  assumes sz: "0 < sz"
    and len: "unat (ga_size a) = length ys"
    and el: "map slot_value (take (length ys) (slots h (ga_begin a))) = map Some ys"
    and cap: "length ys \<le> unat (ga_capacity a)"
    and room: "unat (ga_capacity a) \<le> length (slots h (ga_begin a))"
    and mem: "\<forall>m. avail h = Some m \<longrightarrow> B \<le> m + 3 * (unat (ga_capacity a) * sz)"
    and own: "ga_begin a = 0 \<or> length (blocks h0) < ga_begin a"
    and grown: "length (blocks h0) \<le> length (blocks h)"
    and frame: "\<forall>q\<le>length (blocks h0). slots h q = slots h0 q"
    and item: "item_value x h0 = Inr v"
    and bud: "3 * (((3 * length ys + 4) div 2) * sz) \<le> B"
    and bound: "(3 * length ys + 4) * sz < 2 ^ LENGTH('w)"
  shows "\<exists>a' h'. push sz mv x a h = Inr (a', h') \<and> unat (ga_size a') = Suc (length ys) \<and>
           map slot_value (take (Suc (length ys)) (slots h' (ga_begin a'))) = map Some (ys @ [v]) \<and>
           Suc (length ys) \<le> unat (ga_capacity a') \<and>
           unat (ga_capacity a') \<le> length (slots h' (ga_begin a')) \<and>
           (\<forall>m. avail h' = Some m \<longrightarrow> B \<le> m + 3 * (unat (ga_capacity a') * sz)) \<and>
           (ga_begin a' = 0 \<or> length (blocks h0) < ga_begin a') \<and>
           length (blocks h0) \<le> length (blocks h') \<and>
           (\<forall>q\<le>length (blocks h0). slots h' q = slots h0 q)"
proof (cases "ga_size a = ga_capacity a")
  case False
  let ?S = "slots h (ga_begin a)"
  define n where "n = length ys"
  from False have "unat (ga_size a) \<noteq> unat (ga_capacity a)" by (simp add: word_unat_eq_iff)
  then have lt: "unat (ga_size a) < unat (ga_capacity a)" using len cap by simp
  then have r: "unat (ga_size a) < length ?S" using room by simp
  have iv: "item_value x h = Inr v" using item frame by (rule item_stable)
  from store_item_ok [OF iv r] obtain h' where
    st: "store_item x a h = Inr (a\<lparr>ga_size := ga_size a + 1\<rparr>, h')" by blast
  note s = store_item_Inr [OF st]
  from s(3) iv have sl: "slots h' = (slots h)(ga_begin a := ?S[n := assign_slot v (?S ! n)])"
    using len by (simp add: n_def)
  have nz: "ga_begin a \<noteq> 0"
  proof
    assume "ga_begin a = 0"
    then have "?S = []" by (simp add: slots_null)
    then show False using r by simp
  qed
  then have far: "length (blocks h0) < ga_begin a" using own by simp
  have "map slot_value (take (Suc n) (slots h' (ga_begin a))) = map Some (ys @ [v])"
    using sl r el len by (simp add: take_Suc_update slot_value_assign n_def)
  moreover have "\<forall>q\<le>length (blocks h0). slots h' q = slots h0 q"
    using sl far frame by simp
  moreover have "length (slots h' (ga_begin a)) = length ?S" using sl by simp
  ultimately show ?thesis
    using st s(4,5) False unat_inc_less [OF lt] len lt room mem own grown
    by (simp add: push_nogrow n_def)
next
  case True
  let ?S = "slots h (ga_begin a)"
  define n where "n = length ys"
  define c' where "c' = new_capacity (ga_capacity a)"
  define nb where "nb = Suc (length (blocks h))"
  have n: "unat (ga_capacity a) = n" "unat (ga_size a) = n" using True len by (simp_all add: n_def)
  have b1: "3 * n + 4 \<le> (3 * n + 4) * sz" using sz by (cases sz) simp_all
  have b0: "(3 * n + 4) * sz < 2 ^ LENGTH('w)" using bound by (simp only: n_def)
  have b2: "3 * n + 4 < 2 ^ LENGTH('w)" using b1 b0 by (rule le_less_trans)
  have c: "unat c' = (if n = 0 then 2 else (n * 3 + 1) div 2)"
  proof (cases "ga_capacity a = 0")
    case True
    then show ?thesis using new_capacity_0 [where 'w='w] b2 n by (simp add: c'_def)
  next
    case False
    then have "0 < unat (ga_capacity a)" by (simp add: unat_gt_0)
    then have "n \<noteq> 0" using n by simp
    then show ?thesis using unat_new_capacity [OF _ False] b2 n by (simp add: c'_def)
  qed
  then have nc: "n < unat c'" and cb: "unat c' \<le> 3 * n + 4"
    and cd: "unat c' \<le> (3 * n + 4) div 2" and c32: "3 * n \<le> 2 * unat c'"
    by (auto split: if_splits)
  from cb have "unat c' * sz \<le> (3 * n + 4) * sz" by (rule mult_le_mono1)
  then have nov: "unat c' * sz < 2 ^ LENGTH('w)" using b0 by (rule le_less_trans)
  from unat_mult_sizeof [OF nov sz] have m: "unat (c' * of_nat sz) div sz = unat c'" .
  have "sz \<le> unat c' * sz" using nc by (cases "unat c'") simp_all
  then have "sz < 2 ^ LENGTH('w)" using nov by linarith
  then have "unat (of_nat sz :: 'w word) = sz" by (simp add: unat_of_nat)
  then have bytes: "unat (c' * of_nat sz) = unat c' * sz"
    using nov by (simp add: unat_word_ariths)
  have y32: "3 * (n * sz) \<le> 2 * (unat c' * sz)"
    using mult_le_mono1 [OF c32, of sz] by (simp add: mult.assoc)
  have "unat c' * sz \<le> ((3 * n + 4) div 2) * sz" using cd by (rule mult_le_mono1)
  moreover have "3 * (((3 * n + 4) div 2) * sz) \<le> B" using bud by (simp only: n_def)
  ultimately have x3: "3 * (unat c' * sz) \<le> B" by linarith
  have ca: "can_alloc (unat (c' * of_nat sz)) h"
  proof (cases "avail h")
    case None
    then show ?thesis by (simp add: can_alloc_def)
  next
    case (Some k)
    then have "B \<le> k + 3 * (n * sz)" using mem n by simp
    from budget_step(1) [OF y32 this x3] show ?thesis using Some by (simp add: can_alloc_def bytes)
  qed
  have ln: "length (take n ?S) = n" using room n by simp
  have el': "\<forall>i<n. ?S ! i \<noteq> Raw"
  proof (intro allI impI)
    fix i assume i: "i < n"
    then have "slot_value (?S ! i) = Some (ys ! i)" using values_nth(2) [OF el] by (simp add: n_def)
    then show "?S ! i \<noteq> Raw" by auto
  qed
  have own0: "ga_begin a = 0 \<Longrightarrow> ?S = []" by (simp add: slots_null)
  have fr2: "\<forall>q\<le>length (blocks h0). slots h2 q = slots h0 q"
    if s2: "slots h2 = (slots h)
        (ga_begin a := map (map_slot mv) (take n ?S) @ drop n ?S,
         nb := map as_object (take n ?S) @ replicate (unat c' - n) Raw)" for h2 :: "'a heap"
  proof (intro allI impI)
    fix q assume q: "q \<le> length (blocks h0)"
    then have qn: "q \<noteq> nb" using grown by (simp add: nb_def)
    show "slots h2 q = slots h0 q"
    proof (cases "q = ga_begin a")
      case True
      then have "ga_begin a = 0" using own q by auto
      then show ?thesis using True qn s2 frame q own0 by simp
    next
      case False
      then show ?thesis using qn s2 frame q by simp
    qed
  qed
  have "\<exists>a' h'. push sz mv x a h = Inr (a', h')"
  proof (rule push_grow_ok [OF True])
    show "can_alloc (unat (new_capacity (ga_capacity a) * of_nat sz)) h"
      using ca by (simp add: c'_def)
    show "unat (ga_size a) < unat (new_capacity (ga_capacity a) * of_nat sz) div sz"
      using nc m n by (simp add: c'_def)
    show "unat (ga_size a) \<le> length ?S" using room n by simp
    show "\<forall>i<unat (ga_size a). ?S ! i \<noteq> Raw" using el' n by simp
    fix h2 :: "'a heap"
    assume "slots h2 = (slots h)
        (ga_begin a := map (map_slot mv) (take (unat (ga_size a)) ?S) @ drop (unat (ga_size a)) ?S,
         Suc (length (blocks h)) := map as_object (take (unat (ga_size a)) ?S) @
           replicate (unat (new_capacity (ga_capacity a) * of_nat sz) div sz - unat (ga_size a)) Raw)"
    then have "slots h2 = (slots h)
        (ga_begin a := map (map_slot mv) (take n ?S) @ drop n ?S,
         nb := map as_object (take n ?S) @ replicate (unat c' - n) Raw)"
      using n m by (simp add: c'_def nb_def)
    from item_stable [OF item fr2 [OF this]] show "\<exists>v. item_value x h2 = Inr v" by blast
  qed
  then obtain a' h' where p: "push sz mv x a h = Inr (a', h')" by blast
  note g = push_grow_Inr [OF p True]
  have a': "ga_begin a' = nb" "ga_capacity a' = c'" "ga_size a' = ga_size a + 1"
    using g(1) by (simp_all add: c'_def nb_def)
  from g(5) obtain h2 w where
    s2: "slots h2 = (slots h)
        (ga_begin a := map (map_slot mv) (take n ?S) @ drop n ?S,
         nb := map as_object (take n ?S) @ replicate (unat c' - n) Raw)"
    and iw: "item_value x h2 = Inr w"
    and sl': "slots h' = (slots h2)(nb := (slots h2 nb)[n := Assigned w])"
    using n m by (auto simp: c'_def nb_def)
  have "item_value x h2 = Inr v" using item fr2 [OF s2] by (rule item_stable)
  then have wv: "w = v" using iw by simp
  have sl: "slots h' nb = (map as_object (take n ?S) @ replicate (unat c' - n) Raw)[n := Assigned v]"
    using sl' s2 wv by simp
  have av: "avail h' = map_option (\<lambda>k. k - unat c' * sz) (avail h)"
    using g(8) bytes by (simp add: c'_def)
  have mem': "B \<le> k' + 3 * (unat c' * sz)" if "avail h' = Some k'" for k'
  proof -
    from that av obtain k where k: "avail h = Some k" "k' = k - unat c' * sz" by auto
    then have "B \<le> k + 3 * (n * sz)" using mem n by simp
    from budget_step(2) [OF y32 this x3] show ?thesis using k by simp
  qed
  have fr': "\<forall>q\<le>length (blocks h0). slots h' q = slots h0 q"
  proof (intro allI impI)
    fix q assume q: "q \<le> length (blocks h0)"
    then have "q \<noteq> nb" using grown by (simp add: nb_def)
    then show "slots h' q = slots h0 q" using sl' fr2 [OF s2] q by simp
  qed
  have "unat (ga_size a') = Suc n"
    using unat_inc_less [of "ga_size a" c'] nc n a' by simp
  moreover have "map slot_value (take (Suc n) (slots h' (ga_begin a'))) = map Some (ys @ [v])"
  proof -
    have "take (Suc n) (slots h' nb) = map as_object (take n ?S) @ [Assigned v]"
      using sl ln nc by (simp add: take_Suc_update)
    moreover have "map slot_value (map as_object (take n ?S)) = map slot_value (take n ?S)"
      by (simp add: slot_value_as_object)
    ultimately show ?thesis using el a' by (simp add: n_def)
  qed
  moreover have "length (slots h' (ga_begin a')) = unat c'" using sl ln nc a' by simp
  moreover have "length (blocks h0) < nb" using grown by (simp add: nb_def)
  moreover have "length (blocks h0) \<le> length (blocks h')" using g(6) grown by simp
  ultimately show ?thesis using p nc a' mem' fr' by (simp add: n_def)
qed

lemma push_all_steps:
  fixes a :: "'w::len GrowingArray"
  assumes "list_all2 (\<lambda>it v. item_value it h0 = Inr v) items vs"
    and "0 < sz"
    and "unat (ga_size a) = length ys"
    and "map slot_value (take (length ys) (slots h (ga_begin a))) = map Some ys"
    and "length ys \<le> unat (ga_capacity a)"
    and "unat (ga_capacity a) \<le> length (slots h (ga_begin a))"
    and "\<forall>m. avail h = Some m \<longrightarrow> B \<le> m + 3 * (unat (ga_capacity a) * sz)"
    and "ga_begin a = 0 \<or> length (blocks h0) < ga_begin a"
    and "length (blocks h0) \<le> length (blocks h)"
    and "\<forall>q\<le>length (blocks h0). slots h q = slots h0 q"
    and "3 * (((3 * (length ys + length items) + 1) div 2) * sz) \<le> B"
    and "(3 * (length ys + length items) + 1) * sz < 2 ^ LENGTH('w)"
  shows "\<exists>a' h'. push_all sz mv items a h = Inr (a', h') \<and>
           unat (ga_size a') = length (ys @ vs) \<and>
           map slot_value (take (length (ys @ vs)) (slots h' (ga_begin a'))) = map Some (ys @ vs)"
  using assms
proof (induction items vs arbitrary: a h ys rule: list_all2_induct)
  case Nil
  then show ?case by simp
next
  case (Cons x xs v vs)
  have le: "3 * length ys + 4 \<le> 3 * (length ys + length (x # xs)) + 1" by simp
  have "(3 * length ys + 4) * sz \<le> (3 * (length ys + length (x # xs)) + 1) * sz"
    using le by (rule mult_le_mono1)
  then have b: "(3 * length ys + 4) * sz < 2 ^ LENGTH('w)"
    using Cons.prems(11) by (rule le_less_trans)
  have "(3 * length ys + 4) div 2 \<le> (3 * (length ys + length (x # xs)) + 1) div 2"
    using le by (rule div_le_mono)
  then have "((3 * length ys + 4) div 2) * sz \<le> ((3 * (length ys + length (x # xs)) + 1) div 2) * sz"
    by (rule mult_le_mono1)
  then have bu: "3 * (((3 * length ys + 4) div 2) * sz) \<le> B"
    using Cons.prems(10) by linarith
  from push_step [OF Cons.prems(1-9) Cons.hyps(1) bu b, of mv] obtain a1 h1 where
    p: "push sz mv x a h = Inr (a1, h1)" and
    i: "unat (ga_size a1) = length (ys @ [v])"
       "map slot_value (take (length (ys @ [v])) (slots h1 (ga_begin a1))) = map Some (ys @ [v])"
       "length (ys @ [v]) \<le> unat (ga_capacity a1)"
       "unat (ga_capacity a1) \<le> length (slots h1 (ga_begin a1))"
       "\<forall>m. avail h1 = Some m \<longrightarrow> B \<le> m + 3 * (unat (ga_capacity a1) * sz)"
       "ga_begin a1 = 0 \<or> length (blocks h0) < ga_begin a1"
       "length (blocks h0) \<le> length (blocks h1)"
       "\<forall>q\<le>length (blocks h0). slots h1 q = slots h0 q"
    by auto
  have b': "3 * (((3 * (length (ys @ [v]) + length xs) + 1) div 2) * sz) \<le> B"
    "(3 * (length (ys @ [v]) + length xs) + 1) * sz < 2 ^ LENGTH('w)"
    using Cons.prems(10,11) by simp_all
  from Cons.IH [OF Cons.prems(1) i b'] show ?case using p by simp
qed

lemma new_capacity_step:
  fixes c :: "'w::len word"
  assumes "unat c = n" and "0 < n" and "3 * n + 1 < 2 ^ LENGTH('w)"
  shows "unat (new_capacity c) = (3 * n + 1) div 2"
proof -
  have "c \<noteq> 0" using assms(1,2) by auto
  moreover have "unat c * 3 + 1 < 2 ^ LENGTH('w)" using assms(1,3) by (simp add: mult.commute)
  ultimately show ?thesis using unat_new_capacity [of c] assms(1) by (simp add: mult.commute)
qed

lemma capacity_sequence:
  assumes "25 < (2::nat) ^ LENGTH('w::len)"
  shows "map (\<lambda>k. unat ((new_capacity ^^ k) (0 :: 'w word))) [0, 1, 2, 3, 4, 5] = [0, 2, 3, 5, 8, 12]"
proof -
  let ?f = "new_capacity :: 'w word \<Rightarrow> 'w word"
  have c1: "unat (?f 0) = 2" using assms by (intro new_capacity_0) simp
  have c2: "unat (?f (?f 0)) = 3" using new_capacity_step [OF c1] assms by simp
  have c3: "unat (?f (?f (?f 0))) = 5" using new_capacity_step [OF c2] assms by simp
  have c4: "unat (?f (?f (?f (?f 0)))) = 8" using new_capacity_step [OF c3] assms by simp
  have c5: "unat (?f (?f (?f (?f (?f 0))))) = 12" using new_capacity_step [OF c4] assms by simp
  show ?thesis using c1 c2 c3 c4 c5 by (simp add: eval_nat_numeral)
qed

lemma word_inc_le:
  fixes s c :: "'w::len word"
  assumes "unat s < unat c"
  shows "s + 1 \<le> c" and "unat (s + 1) = Suc (unat s)"
proof -
  show u: "unat (s + 1) = Suc (unat s)" using assms by (rule unat_inc_less)
  show "s + 1 \<le> c" using assms u by (simp add: word_le_nat_alt)
qed

text \<open>A push that completes leaves \<open>size \<le> capacity\<close>, whatever the state it starts from.\<close>

lemma push_size_le_capacity:
  fixes a :: "'w::len GrowingArray"
  assumes "push sz mv item a h = Inr (a', h')" and "ga_size a \<le> ga_capacity a"
  shows "ga_size a' \<le> ga_capacity a'"
proof (cases "ga_size a = ga_capacity a")
  case False
  from assms(1) False have st: "store_item item a h = Inr (a', h')" by (simp add: push_nogrow)
  have "unat (ga_size a) \<noteq> unat (ga_capacity a)" using False by (simp add: word_unat_eq_iff)
  then have "unat (ga_size a) < unat (ga_capacity a)"
    using assms(2) by (simp add: word_le_nat_alt)
  from word_inc_le(1) [OF this] show ?thesis using store_item_Inr(1) [OF st] by simp
next
  case True
  note g = push_grow_Inr [OF assms(1) True]
  have "unat (new_capacity (ga_capacity a) * of_nat sz) div sz \<le> unat (new_capacity (ga_capacity a))"
    by (rule unat_mult_sizeof_le)
  then have "unat (ga_size a) < unat (new_capacity (ga_capacity a))" using g(2) by simp
  from word_inc_le(1) [OF this] show ?thesis using g(1) by simp
qed

text \<open>
  A push in a state with \<open>size < capacity\<close> whose block has room for \<open>capacity\<close> elements,
  with an item bound to an object that holds a value.
\<close>

lemma push_with_room:
  fixes a :: "'w::len GrowingArray"
  assumes "ga_size a < ga_capacity a"
    and "unat (ga_capacity a) \<le> length (slots h (ga_begin a))"
    and "item_value item h = Inr v"
  shows "\<exists>a' h'. push sz mv item a h = Inr (a', h') \<and>
           unat (ga_size a') = Suc (unat (ga_size a)) \<and>
           ga_capacity a' = ga_capacity a \<and> ga_begin a' = ga_begin a \<and>
           slot_value (slots h' (ga_begin a) ! unat (ga_size a)) = Some v \<and>
           (\<forall>i<unat (ga_size a). slots h' (ga_begin a) ! i = slots h (ga_begin a) ! i) \<and>
           (\<forall>q. q \<noteq> ga_begin a \<longrightarrow> slots h' q = slots h q) \<and>
           length (slots h' (ga_begin a)) = length (slots h (ga_begin a)) \<and>
           length (blocks h') = length (blocks h) \<and> avail h' = avail h \<and>
           ctors h' = ctors h \<and> dtors h' = dtors h"
proof -
  have lt: "unat (ga_size a) < unat (ga_capacity a)" using assms(1) by (simp add: word_less_nat_alt)
  then have r: "unat (ga_size a) < length (slots h (ga_begin a))" using assms(2) by simp
  from store_item_ok [OF assms(3) r] obtain h' where
    st: "store_item item a h = Inr (a\<lparr>ga_size := ga_size a + 1\<rparr>, h')" by blast
  note s = store_item_Inr [OF st]
  from s(3) assms(3) have sl: "slots h' = (slots h)(ga_begin a := (slots h (ga_begin a))
      [unat (ga_size a) := assign_slot v (slots h (ga_begin a) ! unat (ga_size a))])"
    by simp
  have "push sz mv item a h = Inr (a\<lparr>ga_size := ga_size a + 1\<rparr>, h')"
    using st assms(1) by (simp add: push_nogrow)
  then show ?thesis
    using sl s(4-7) r unat_inc_less [OF lt]
    by (intro exI [of _ "a\<lparr>ga_size := ga_size a + 1\<rparr>"] exI [of _ h'])
       (simp add: slot_value_assign)
qed

section \<open>Facts about the destructors, the earlier growth rules and moves\<close>

lemma int_loop_in_range:
  "n \<le> int_max \<Longrightarrow> int_loop int_max n body s = for_each [0..<n] body s"
  by (simp add: int_loop_def)

lemma int_loop_overflow: "int_max < n \<Longrightarrow> int_loop int_max n body s \<noteq> Inr s'"
  by (simp add: int_loop_def split: sum.splits)

lemma GrowingArray_destroy_in_range:
  "unat (ga_size a) \<le> int_max \<Longrightarrow>
   GrowingArray_destroy int_max a h =
     (case for_each [0..<unat (ga_size a)] (destroy_at (ga_begin a)) h of
        Inl e \<Rightarrow> Inl e
      | Inr h1 \<Rightarrow> free (ga_begin a) h1)"
  by (simp add: GrowingArray_destroy_def int_loop_def)

lemma GrowingArray_destroy_overflow:
  "int_max < unat (ga_size a) \<Longrightarrow> GrowingArray_destroy int_max a h \<noteq> Inr h'"
  by (simp add: GrowingArray_destroy_def int_loop_def split: sum.splits)

lemma HeapArray_destroy_in_range:
  "unat (ha_size a) \<le> int_max \<Longrightarrow>
   HeapArray_destroy int_max a h =
     (case for_each [0..<unat (ha_size a)] (destroy_at (ha_begin a)) h of
        Inl e \<Rightarrow> Inl e
      | Inr h1 \<Rightarrow> free (ha_begin a) h1)"
  by (simp add: HeapArray_destroy_def int_loop_def)

lemma HeapArray_destroy_overflow:
  "int_max < unat (ha_size a) \<Longrightarrow> HeapArray_destroy int_max a h \<noteq> Inr h'"
  by (simp add: HeapArray_destroy_def int_loop_def split: sum.splits)

lemma earlier_growth_rules:
  "map (\<lambda>k. (growing_array_push_capacity_1 ^^ k) (0 :: 16 word)) [0, 1, 2, 3, 4, 5] =
     [0, 1, 2, 4, 7, 11]"
  "map (\<lambda>k. (growing_array_push_capacity_2 ^^ k) (0 :: 16 word)) [0, 1, 2, 3, 4, 5] =
     [0, 1, 1, 1, 1, 1]"
  by code_simp+

lemma GrowingArray_move_transfers:
  fixes a :: "'w::len GrowingArray"
  shows "fst (GrowingArray_move a) = a"
    and "snd (GrowingArray_move a) = \<lparr>ga_begin = 0, ga_size = 0, ga_capacity = ga_capacity a\<rparr>"
    and "GrowingArray_length (snd (GrowingArray_move a)) = 0"
    and "GrowingArray_destroy int_max (snd (GrowingArray_move a)) h = Inr h"
  by (simp_all add: GrowingArray_move_def GrowingArray_length_def GrowingArray_destroy_def
      int_loop_def free_def)

lemma HeapArray_move_transfers:
  fixes a :: "'w::len HeapArray"
  shows "fst (HeapArray_move a) = a"
    and "snd (HeapArray_move a) = \<lparr>ha_begin = 0, ha_size = 0\<rparr>"
    and "HeapArray_length (snd (HeapArray_move a)) = 0"
    and "HeapArray_destroy int_max (snd (HeapArray_move a)) h = Inr h"
  by (simp_all add: HeapArray_move_def HeapArray_length_def HeapArray_destroy_def
      int_loop_def free_def)

section \<open>Heaps of the same shape\<close>

lemma block_at_shape:
  "block_at (heap_shape h) p =
     map_option (\<lambda>(n, sl). (n, map (map_slot (\<lambda>v. ())) sl)) (block_at h p)"
proof (cases "p = 0 \<or> length (blocks h) < p")
  case True
  then show ?thesis by (auto simp: block_at_def heap_shape_def)
next
  case False
  then have "p - 1 < length (blocks h)" by arith
  then show ?thesis using False by (simp add: block_at_def heap_shape_def)
qed

lemma counters_shape: "ctors (heap_shape h) = ctors h" "dtors (heap_shape h) = dtors h"
  "avail (heap_shape h) = avail h" "length (blocks (heap_shape h)) = length (blocks h)"
  by (simp_all add: heap_shape_def)

lemma slots_shape: "slots (heap_shape h) p = map (map_slot (\<lambda>v. ())) (slots h p)"
  by (simp add: slots_def block_at_shape split: option.splits)

lemma shape_ctors: "heap_shape (h\<lparr>ctors := c\<rparr>) = (heap_shape h)\<lparr>ctors := c\<rparr>"
  by (simp add: heap_shape_def)

lemma slot_value_shape: "slot_value (map_slot f s) = map_option f (slot_value s)"
  by (cases s) simp_all

lemma assign_slot_shape: "map_slot f (assign_slot v s) = assign_slot (f v) (map_slot f s)"
  by (cases s) simp_all

lemma update_slot_shape:
  assumes "\<And>s. map_slot (\<lambda>v. ()) (f s) = f' (map_slot (\<lambda>v. ()) s)"
  shows "update_slot p i f' (heap_shape h) = map_sum id heap_shape (update_slot p i f h)"
proof (cases "block_at h p")
  case None
  then show ?thesis by (simp add: update_slot_def block_at_shape)
next
  case (Some b)
  obtain n sl where b: "b = (n, sl)" by (cases b)
  let ?u = "map_slot (\<lambda>v. ())"
  have l: "update_slot p i f' (heap_shape h) =
      (if i < length sl
       then Inr ((heap_shape h)\<lparr>blocks :=
              (blocks (heap_shape h))[p - 1 := Some (n, (map ?u sl)[i := f' (map ?u sl ! i)])]\<rparr>)
       else Inl Undefined)"
    using Some b by (simp add: update_slot_def block_at_shape)
  have r: "update_slot p i f h =
      (if i < length sl
       then Inr (h\<lparr>blocks := (blocks h)[p - 1 := Some (n, sl[i := f (sl ! i)])]\<rparr>)
       else Inl Undefined)"
    using Some b by (simp add: update_slot_def)
  have "heap_shape (h\<lparr>blocks := (blocks h)[p - 1 := Some (n, sl[i := f (sl ! i)])]\<rparr>) =
      (heap_shape h)\<lparr>blocks := (blocks (heap_shape h))[p - 1 := Some (n, (map ?u sl)[i := f' (map ?u sl ! i)])]\<rparr>"
    if "i < length sl"
    using that assms by (simp add: heap_shape_def map_update)
  then show ?thesis by (simp add: l r)
qed

lemma read_slot_shape:
  "read_slot p i (heap_shape h) = map_sum id (\<lambda>v. ()) (read_slot p i h)"
  by (auto simp: read_slot_def slots_shape slot_value_shape split: option.splits)

lemma item_value_shape:
  "item_value (map_item (\<lambda>v. ()) item) (heap_shape h) = map_sum id (\<lambda>v. ()) (item_value item h)"
  by (cases item) (simp_all add: read_slot_shape)

lemma construct_at_shape:
  "construct_at p i () (heap_shape h) = map_sum id heap_shape (construct_at p i v h)"
  using update_slot_shape [of "\<lambda>s. Object v" "\<lambda>s. Object ()" p i h]
  by (cases "update_slot p i (\<lambda>s. Object v) h")
     (simp_all add: construct_at_def shape_ctors counters_shape)

lemma move_construct_from_shape:
  "move_construct_from mv' src dst i (heap_shape h) =
     map_sum id heap_shape (move_construct_from mv src dst i h)"
proof (cases "read_slot src i h")
  case (Inl e)
  then show ?thesis by (simp add: move_construct_from_def read_slot_shape)
next
  case (Inr v)
  have u: "update_slot src i (map_slot mv') (heap_shape g) =
      map_sum id heap_shape (update_slot src i (map_slot mv) g)" for g :: "'a heap"
    by (rule update_slot_shape) (simp add: slot.map_comp comp_def)
  show ?thesis
    using Inr construct_at_shape [of dst i h v] u
    by (cases "construct_at dst i v h") (simp_all add: move_construct_from_def read_slot_shape)
qed

lemma move_loop_shape:
  "for_each js (move_construct_from (\<lambda>u. ()) src dst) (heap_shape h) =
     map_sum id heap_shape (for_each js (move_construct_from mv src dst) h)"
proof (induction js arbitrary: h)
  case Nil
  then show ?case by simp
next
  case (Cons j js)
  then show ?case
    using move_construct_from_shape [of "\<lambda>u. ()" src dst j h mv]
    by (cases "move_construct_from mv src dst j h") simp_all
qed

lemma malloc_shape:
  "malloc sz n (heap_shape h) = (fst (malloc sz n h), heap_shape (snd (malloc sz n h)))"
  by (simp add: malloc_def can_alloc_def heap_shape_def)

lemma store_item_shape:
  "store_item (map_item (\<lambda>v. ()) item) a (heap_shape h) =
     map_sum id (map_prod id heap_shape) (store_item item a h)"
proof (cases "item_value item h")
  case (Inl e)
  then show ?thesis by (simp add: store_item_def item_value_shape)
next
  case (Inr v)
  have "update_slot (ga_begin a) (unat (ga_size a)) (assign_slot ()) (heap_shape h) =
      map_sum id heap_shape (update_slot (ga_begin a) (unat (ga_size a)) (assign_slot v) h)"
    by (rule update_slot_shape) (simp add: assign_slot_shape)
  then show ?thesis
    using Inr
    by (cases "update_slot (ga_begin a) (unat (ga_size a)) (assign_slot v) h")
       (simp_all add: store_item_def assign_at_def item_value_shape)
qed

lemma push_shape:
  "push sz (\<lambda>u. ()) (map_item (\<lambda>v. ()) item) a (heap_shape h) =
     map_sum id (map_prod id heap_shape) (push sz mv item a h)"
proof (cases "ga_size a = ga_capacity a")
  case False
  then show ?thesis by (simp add: push_nogrow store_item_shape)
next
  case True
  obtain p h1 where ma: "malloc sz (unat (new_capacity (ga_capacity a) * of_nat sz)) h = (p, h1)"
    by fastforce
  then have ms: "malloc sz (unat (new_capacity (ga_capacity a) * of_nat sz)) (heap_shape h) =
      (p, heap_shape h1)"
    by (simp add: malloc_shape)
  show ?thesis
    using True ma ms move_loop_shape [of "[0..<unat (ga_capacity a)]" "ga_begin a" p h1 mv]
    by (cases "for_each [0..<unat (ga_capacity a)] (move_construct_from mv (ga_begin a) p) h1")
       (simp_all add: push_def Let_def store_item_shape)
qed

lemma push_all_shape:
  "push_all sz (\<lambda>u. ()) (map (map_item (\<lambda>v. ())) xs) a (heap_shape h) =
     map_sum id (map_prod id heap_shape) (push_all sz mv xs a h)"
proof (induction xs arbitrary: a h)
  case Nil
  then show ?case by simp
next
  case (Cons x xs)
  show ?case
  proof (cases "push sz mv x a h")
    case (Inl e)
    then show ?thesis using push_shape [of sz x a h mv] by simp
  next
    case (Inr r)
    obtain a' h' where r: "r = (a', h')" by (cases r)
    then show ?thesis using Inr push_shape [of sz x a h mv] Cons.IH [of a' h'] by simp
  qed
qed

section \<open>Growth correctness\<close>

text \<open>
  Claim C3, as amended. \<^verbatim>\<open>push\<close> takes its item by reference and reads it in its last
  statement, after a reallocation has moved the elements out of the old block. The claim
  holds for items that exist before the first push: every item is bound to an object that
  holds a value in the heap \<open>h\<close> in which the run starts (a value outside the heap,
  \<open>Val\<close>, or an element of a block of \<open>h\<close>), so no item is an element of the
  array that is pushed onto. Pushing \<open>k\<close> such items with the values \<open>vs\<close> in order onto
  a default-constructed GrowingArray succeeds, yields \<open>length() = k\<close>, and indexed access at
  every \<open>i < k\<close> returns a reference through which \<open>vs ! i\<close> is read, however many
  reallocations the pushes cross and whatever the move constructor of \<^verbatim>\<open>T\<close> leaves in
  its source. The other hypotheses are those of a run in which nothing fails: \<open>sizeof(T)\<close>
  is positive, the allocator can supply \<open>5 * (k + 1) * sizeof(T)\<close> bytes (the blocks left
  behind by the reallocations are never released, so all of them count), and
  \<open>(3 * k + 1) * sizeof(T)\<close> fits in \<^verbatim>\<open>size_t\<close>, so that neither \<^verbatim>\<open>capacity * 3 + 1\<close> nor
  \<^verbatim>\<open>capacity * sizeof(T)\<close> wraps around.
\<close>

theorem push_all_correct:
  fixes h :: "'a heap"
  assumes "0 < sz"
    and "list_all2 (\<lambda>it v. item_value it h = Inr v) items vs"
    and "can_alloc (5 * (length items + 1) * sz) h"
    and "(3 * length items + 1) * sz < 2 ^ LENGTH('w::len)"
  shows "\<exists>(a :: 'w GrowingArray) h'.
           push_all sz mv items GrowingArray_new h = Inr (a, h') \<and>
           unat (GrowingArray_length a) = length items \<and>
           (\<forall>i<length items. \<exists>r. GrowingArray_index a (of_nat i) = Inr r \<and>
                                   deref r h' = Inr (vs ! i))"
proof -
  define B where "B = 3 * (((3 * length items + 1) div 2) * sz)"
  have lv: "length vs = length items" using assms(2) by (simp add: list_all2_lengthD)
  have "(3 * length items + 1) div 2 * 3 \<le> 5 * (length items + 1)" by arith
  then have "(3 * length items + 1) div 2 * 3 * sz \<le> 5 * (length items + 1) * sz"
    by (rule mult_le_mono1)
  then have "B \<le> 5 * (length items + 1) * sz" by (simp add: B_def mult.commute mult.left_commute)
  with assms(3) have "can_alloc B h" by (rule can_alloc_mono)
  then have mem: "\<forall>m. avail h = Some m \<longrightarrow>
      B \<le> m + 3 * (unat (ga_capacity (GrowingArray_new :: 'w GrowingArray)) * sz)"
    by (auto simp: can_alloc_def GrowingArray_new_def)
  have "\<exists>(a :: 'w GrowingArray) h'. push_all sz mv items GrowingArray_new h = Inr (a, h') \<and>
          unat (ga_size a) = length ([] @ vs) \<and>
          map slot_value (take (length ([] @ vs)) (slots h' (ga_begin a))) = map Some ([] @ vs)"
    using assms(1,4) mem
    by (intro push_all_steps [where B=B and ?h0.0=h, OF assms(2)])
       (simp_all add: GrowingArray_new_def slots_null B_def)
  then obtain a :: "'w GrowingArray" and h' where
    p: "push_all sz mv items GrowingArray_new h = Inr (a, h')" and
    n: "unat (ga_size a) = length vs" and
    t: "map slot_value (take (length vs) (slots h' (ga_begin a))) = map Some vs"
    by auto
  have "\<exists>r. GrowingArray_index a (of_nat i) = Inr r \<and> deref r h' = Inr (vs ! i)"
    if i: "i < length vs" for i
  proof -
    have "unat (ga_size a) < 2 ^ LENGTH('w)" by (rule unsigned_less)
    then have "length vs < 2 ^ LENGTH('w)" by (simp only: n)
    then have u: "unat (of_nat i :: 'w word) = i" using i by (simp add: unat_of_nat)
    then have lt: "(of_nat i :: 'w word) < ga_size a" using i n by (simp add: word_less_nat_alt)
    have "read_slot (ga_begin a) i h' = Inr (vs ! i)"
      using values_nth [OF t i] by (simp add: read_slot_Inr)
    then show ?thesis using lt u by (simp add: GrowingArray_index_def deref_def)
  qed
  then show ?thesis using p n lv by (auto simp: GrowingArray_length_def)
qed

theorem push_all_correct_witness:
  "0 < (2::nat) \<and>
   list_all2 (\<lambda>it v. item_value it
       \<lparr>blocks = [Some (2, [Object (9::int)])], avail = Some 40, ctors = 1, dtors = 0\<rparr> = Inr v)
     [Val 2, Ref 1 0, Val 6] [2, 9, 6] \<and>
   can_alloc (5 * (length [Val 2, Ref 1 0, Val (6::int)] + 1) * 2)
     \<lparr>blocks = [Some (2, [Object (9::int)])], avail = Some 40, ctors = 1, dtors = 0\<rparr> \<and>
   (3 * length [Val 2, Ref 1 0, Val (6::int)] + 1) * 2 < (2::nat) ^ LENGTH(16) \<and>
   (\<exists>(a :: 16 GrowingArray) h'.
     push_all 2 moved_to_zero [Val 2, Ref 1 0, Val 6] GrowingArray_new
       \<lparr>blocks = [Some (2, [Object 9])], avail = Some 40, ctors = 1, dtors = 0\<rparr> = Inr (a, h') \<and>
     unat (GrowingArray_length a) = 3 \<and>
     (\<exists>r. GrowingArray_index a 0 = Inr r \<and> deref r h' = Inr 2) \<and>
     (\<exists>r. GrowingArray_index a 1 = Inr r \<and> deref r h' = Inr 9) \<and>
     (\<exists>r. GrowingArray_index a 2 = Inr r \<and> deref r h' = Inr 6))"
proof -
  let ?g = "\<lparr>blocks = [Some (2, [Object (9::int)])], avail = Some 40, ctors = 1, dtors = 0\<rparr>"
  let ?xs = "[Val 2, Ref 1 0, Val (6::int)]"
  have r: "item_value (Ref 1 0) ?g = Inr 9" by code_simp
  have h: "0 < (2::nat)"
    "list_all2 (\<lambda>it v. item_value it ?g = Inr v) ?xs [2, 9, 6]"
    "can_alloc (5 * (length ?xs + 1) * 2) ?g"
    "(3 * length ?xs + 1) * 2 < (2::nat) ^ LENGTH(16)"
    using r by (simp_all add: can_alloc_def)
  from push_all_correct [OF h, of moved_to_zero] obtain a :: "16 GrowingArray" and h' where
    p: "push_all 2 moved_to_zero ?xs GrowingArray_new ?g = Inr (a, h')" and
    l: "unat (GrowingArray_length a) = length ?xs" and
    q: "\<forall>i<length ?xs. \<exists>r. GrowingArray_index a (of_nat i) = Inr r \<and>
           deref r h' = Inr ([2, 9, 6 :: int] ! i)"
    by blast
  have q0: "\<exists>r. GrowingArray_index a 0 = Inr r \<and> deref r h' = Inr 2"
    using q [rule_format, of 0] by simp
  have q1: "\<exists>r. GrowingArray_index a 1 = Inr r \<and> deref r h' = Inr 9"
    using q [rule_format, of 1] by simp
  have q2: "\<exists>r. GrowingArray_index a 2 = Inr r \<and> deref r h' = Inr 6"
    using q [rule_format, of 2] by simp
  have l3: "unat (GrowingArray_length a) = 3" using l by simp
  show ?thesis using h p l3 q0 q1 q2 by blast
qed

text \<open>
  Claim C3 as stated fails for an item that is an element of the array itself. After the
  pushes of \<open>2\<close> and \<open>4\<close> the array is full (size and capacity \<open>2\<close>, block \<open>1\<close>) and
  \<^verbatim>\<open>a[0]\<close> holds \<open>2\<close>. \<^verbatim>\<open>a.push(a[0])\<close> reallocates; the move constructor of the element
  type leaves \<open>0\<close> in the old block, the item is read there afterwards, and the array ends
  with \<open>0\<close> at index \<open>2\<close> instead of \<open>2\<close>.
\<close>

theorem push_own_element_counterexample:
  "push_all 2 moved_to_zero [Val 2, Val 4] (GrowingArray_new :: 16 GrowingArray) empty_heap =
     Inr (\<lparr>ga_begin = 1, ga_size = 2, ga_capacity = 2\<rparr>,
          \<lparr>blocks = [Some (4, [Assigned 2, Assigned 4])], avail = None, ctors = 0, dtors = 0\<rparr>) \<and>
   GrowingArray_index \<lparr>ga_begin = 1, ga_size = 2, ga_capacity = 2 :: 16 word\<rparr> 0 = Inr (1, 0) \<and>
   item_value (Ref 1 0)
     \<lparr>blocks = [Some (4, [Assigned 2, Assigned 4])], avail = None, ctors = 0, dtors = 0\<rparr> =
     Inr (2::int) \<and>
   push 2 moved_to_zero (Ref 1 0) \<lparr>ga_begin = 1, ga_size = 2, ga_capacity = 2 :: 16 word\<rparr>
     \<lparr>blocks = [Some (4, [Assigned 2, Assigned 4])], avail = None, ctors = 0, dtors = 0\<rparr> =
     Inr (\<lparr>ga_begin = 2, ga_size = 3, ga_capacity = 3\<rparr>,
          \<lparr>blocks = [Some (4, [Assigned 0, Assigned 0]),
                     Some (6, [Object 2, Object 4, Assigned 0])],
           avail = None, ctors = 2, dtors = 0\<rparr>) \<and>
   GrowingArray_index \<lparr>ga_begin = 2, ga_size = 3, ga_capacity = 3 :: 16 word\<rparr> 2 = Inr (2, 2) \<and>
   deref (2, 2)
     \<lparr>blocks = [Some (4, [Assigned 0, Assigned 0]), Some (6, [Object 2, Object 4, Assigned 0])],
      avail = None, ctors = 2, dtors = 0\<rparr> = Inr (0::int)"
  by code_simp

section \<open>Bounds checking\<close>

text \<open>
  Claim C4. For StackArray, HeapArray and GrowingArray alike, runtime indexed access
  terminates the process (\<open>Abort\<close>) if and only if the index is at least \<open>length()\<close>;
  below \<open>length()\<close> it returns the reference to the element at that position (the position
  in \<open>c_array\<close>, or the block \<open>begin\<close> and the position in it) and does not terminate.
\<close>

theorem index_aborts_iff_out_of_bounds:
  fixes i :: "'w::len word"
  shows "(StackArray_index s i = Inl Abort \<longleftrightarrow> StackArray_length s \<le> unat i) \<and>
         (unat i < StackArray_length s \<longrightarrow> StackArray_index s i = Inr (unat i)) \<and>
         (HeapArray_index ha i = Inl Abort \<longleftrightarrow> HeapArray_length ha \<le> i) \<and>
         (i < HeapArray_length ha \<longrightarrow> HeapArray_index ha i = Inr (ha_begin ha, unat i)) \<and>
         (GrowingArray_index ga i = Inl Abort \<longleftrightarrow> GrowingArray_length ga \<le> i) \<and>
         (i < GrowingArray_length ga \<longrightarrow> GrowingArray_index ga i = Inr (ga_begin ga, unat i))"
  by (auto simp: StackArray_index_def StackArray_length_def HeapArray_index_def
      HeapArray_length_def GrowingArray_index_def GrowingArray_length_def)

theorem index_aborts_iff_out_of_bounds_witness:
  "unat (1 :: 16 word) < StackArray_length \<lparr>c_array = [2, 4, 6 :: int]\<rparr> \<and>
   StackArray_index \<lparr>c_array = [2, 4, 6 :: int]\<rparr> (1 :: 16 word) = Inr 1 \<and>
   (1 :: 16 word) < HeapArray_length \<lparr>ha_begin = 1, ha_size = 3\<rparr> \<and>
   HeapArray_index \<lparr>ha_begin = 1, ha_size = 3\<rparr> (1 :: 16 word) = Inr (1, 1) \<and>
   (1 :: 16 word) < GrowingArray_length \<lparr>ga_begin = 2, ga_size = 3, ga_capacity = 3\<rparr> \<and>
   GrowingArray_index \<lparr>ga_begin = 2, ga_size = 3, ga_capacity = 3\<rparr> (1 :: 16 word) = Inr (2, 1)"
  using index_aborts_iff_out_of_bounds [of "\<lparr>c_array = [2, 4, 6 :: int]\<rparr>" "1 :: 16 word"
      "\<lparr>ha_begin = 1, ha_size = 3\<rparr>" "\<lparr>ga_begin = 2, ga_size = 3, ga_capacity = 3\<rparr>"]
  by (simp add: StackArray_length_def HeapArray_length_def GrowingArray_length_def)

section \<open>Growth policy\<close>

text \<open>
  Claim C1, as amended. A successful push allocates a new block exactly when
  \<open>size = capacity\<close>; otherwise it allocates nothing and leaves the capacity as it is. A
  growth sets the capacity to \<open>new_capacity\<close> of the old one, which is \<open>2\<close> for the old
  capacity \<open>0\<close> (the code first sets the capacity to \<open>1\<close> and then applies the growth
  formula to it) and \<open>(old * 3 + 1) div 2\<close> otherwise, as long as \<open>old * 3 + 4\<close> fits in
  \<^verbatim>\<open>size_t\<close>. Starting from capacity \<open>0\<close>, the capacities after successive growth events
  are \<open>0, 2, 3, 5, 8, 12\<close>.
\<close>

theorem push_growth_rule:
  fixes a :: "'w::len GrowingArray"
  assumes "push sz mv item a h = Inr (a', h')"
  shows "(length (blocks h') = Suc (length (blocks h)) \<longleftrightarrow> ga_size a = ga_capacity a) \<and>
         (ga_size a \<noteq> ga_capacity a \<longrightarrow>
            length (blocks h') = length (blocks h) \<and> ga_capacity a' = ga_capacity a) \<and>
         (ga_size a = ga_capacity a \<longrightarrow> ga_capacity a' = new_capacity (ga_capacity a)) \<and>
         (unat (ga_capacity a) * 3 + 4 < 2 ^ LENGTH('w) \<longrightarrow>
            unat (new_capacity (ga_capacity a)) =
              (if ga_capacity a = 0 then 2 else (unat (ga_capacity a) * 3 + 1) div 2)) \<and>
         (25 < (2::nat) ^ LENGTH('w) \<longrightarrow>
            map (\<lambda>k. unat ((new_capacity ^^ k) (0 :: 'w word))) [0, 1, 2, 3, 4, 5] =
              [0, 2, 3, 5, 8, 12])"
proof (cases "ga_size a = ga_capacity a")
  case True
  note g = push_grow_Inr [OF assms True]
  have "ga_capacity a' = new_capacity (ga_capacity a)" using g(1) by simp
  moreover have "unat (new_capacity (ga_capacity a)) =
      (if ga_capacity a = 0 then 2 else (unat (ga_capacity a) * 3 + 1) div 2)"
    if "unat (ga_capacity a) * 3 + 4 < 2 ^ LENGTH('w)"
    using that new_capacity_0 [where 'w='w] unat_new_capacity [of "ga_capacity a"] by auto
  ultimately show ?thesis using True g(6) capacity_sequence [where 'w='w] by simp
next
  case False
  from assms False have st: "store_item item a h = Inr (a', h')" by (simp add: push_nogrow)
  note s = store_item_Inr [OF st]
  have "unat (new_capacity (ga_capacity a)) =
      (if ga_capacity a = 0 then 2 else (unat (ga_capacity a) * 3 + 1) div 2)"
    if "unat (ga_capacity a) * 3 + 4 < 2 ^ LENGTH('w)"
    using that new_capacity_0 [where 'w='w] unat_new_capacity [of "ga_capacity a"] by auto
  then show ?thesis using False s(1,4) capacity_sequence [where 'w='w] by simp
qed

theorem push_growth_rule_witness:
  "push 2 id (Val (7::int)) \<lparr>ga_begin = 1, ga_size = 2, ga_capacity = 2 :: 16 word\<rparr>
     \<lparr>blocks = [Some (4, [Assigned 2, Assigned 4])], avail = None, ctors = 0, dtors = 0\<rparr> =
   Inr (\<lparr>ga_begin = 2, ga_size = 3, ga_capacity = 3\<rparr>,
        \<lparr>blocks = [Some (4, [Assigned 2, Assigned 4]), Some (6, [Object 2, Object 4, Assigned 7])],
         avail = None, ctors = 2, dtors = 0\<rparr>) \<and>
   push 2 id (Val (4::int)) \<lparr>ga_begin = 1, ga_size = 1, ga_capacity = 2 :: 16 word\<rparr>
     \<lparr>blocks = [Some (4, [Assigned 2, Raw])], avail = None, ctors = 0, dtors = 0\<rparr> =
   Inr (\<lparr>ga_begin = 1, ga_size = 2, ga_capacity = 2\<rparr>,
        \<lparr>blocks = [Some (4, [Assigned 2, Assigned 4])], avail = None, ctors = 0, dtors = 0\<rparr>) \<and>
   unat (2 :: 16 word) * 3 + 4 < 2 ^ LENGTH(16) \<and> 25 < (2::nat) ^ LENGTH(16) \<and>
   unat (new_capacity (2 :: 16 word)) = 3 \<and>
   map (\<lambda>k. unat ((new_capacity ^^ k) (0 :: 16 word))) [0, 1, 2, 3, 4, 5] = [0, 2, 3, 5, 8, 12]"
proof -
  have e: "push 2 id (Val (7::int)) \<lparr>ga_begin = 1, ga_size = 2, ga_capacity = 2 :: 16 word\<rparr>
     \<lparr>blocks = [Some (4, [Assigned 2, Assigned 4])], avail = None, ctors = 0, dtors = 0\<rparr> =
   Inr (\<lparr>ga_begin = 2, ga_size = 3, ga_capacity = 3\<rparr>,
        \<lparr>blocks = [Some (4, [Assigned 2, Assigned 4]), Some (6, [Object 2, Object 4, Assigned 7])],
         avail = None, ctors = 2, dtors = 0\<rparr>)"
    by code_simp
  have f: "push 2 id (Val (4::int)) \<lparr>ga_begin = 1, ga_size = 1, ga_capacity = 2 :: 16 word\<rparr>
     \<lparr>blocks = [Some (4, [Assigned 2, Raw])], avail = None, ctors = 0, dtors = 0\<rparr> =
   Inr (\<lparr>ga_begin = 1, ga_size = 2, ga_capacity = 2\<rparr>,
        \<lparr>blocks = [Some (4, [Assigned 2, Assigned 4])], avail = None, ctors = 0, dtors = 0\<rparr>)"
    by code_simp
  from push_growth_rule [OF e] push_growth_rule [OF f] show ?thesis using e f by simp
qed

text \<open>
  Claim C1 as stated fails: the first push onto a default-constructed GrowingArray (old
  capacity \<open>0\<close>) leaves the capacity at \<open>2\<close>, not at \<open>1\<close>, so the sequence of
  capacities does not pass through \<open>1\<close>.
\<close>

theorem first_growth_counterexample:
  "push 2 id (Val (7::int)) (GrowingArray_new :: 16 GrowingArray) empty_heap =
     Inr (\<lparr>ga_begin = 1, ga_size = 1, ga_capacity = 2\<rparr>,
          \<lparr>blocks = [Some (4, [Assigned 7, Raw])], avail = None, ctors = 0, dtors = 0\<rparr>) \<and>
   ga_capacity (GrowingArray_new :: 16 GrowingArray) = 0 \<and>
   new_capacity (0 :: 16 word) \<noteq> 1"
  by code_simp

section \<open>Move construction\<close>

text \<open>
  Claim C2 at a failing input. Moving from a GrowingArray that holds one element in a block
  of capacity \<open>2\<close> leaves the source with a null pointer and size \<open>0\<close> but with its old
  capacity \<open>2\<close>: the move constructor does not reset \<^verbatim>\<open>capacity\<close>. The source is therefore
  not in the state of a default-constructed GrowingArray, and a push onto it stores through
  the null pointer, where a push onto a default-constructed GrowingArray in the same heap
  succeeds.
\<close>

theorem moved_from_source_keeps_capacity:
  "GrowingArray_move \<lparr>ga_begin = 1, ga_size = 1, ga_capacity = 2 :: 16 word\<rparr> =
     (\<lparr>ga_begin = 1, ga_size = 1, ga_capacity = 2\<rparr>,
      \<lparr>ga_begin = 0, ga_size = 0, ga_capacity = 2\<rparr>) \<and>
   \<lparr>ga_begin = 0, ga_size = 0, ga_capacity = 2 :: 16 word\<rparr> \<noteq> GrowingArray_new \<and>
   push 2 id (Val (9::int)) \<lparr>ga_begin = 0, ga_size = 0, ga_capacity = 2 :: 16 word\<rparr>
     \<lparr>blocks = [Some (4, [Assigned 7, Raw])], avail = None, ctors = 0, dtors = 0\<rparr> =
     Inl Undefined \<and>
   push 2 id (Val (9::int)) (GrowingArray_new :: 16 GrowingArray)
     \<lparr>blocks = [Some (4, [Assigned 7, Raw])], avail = None, ctors = 0, dtors = 0\<rparr> =
     Inr (\<lparr>ga_begin = 2, ga_size = 1, ga_capacity = 2\<rparr>,
          \<lparr>blocks = [Some (4, [Assigned 7, Raw]), Some (4, [Assigned 9, Raw])],
           avail = None, ctors = 0, dtors = 0\<rparr>)"
  by code_simp

section \<open>Reallocation\<close>

text \<open>
  Claim C5, as amended. push never terminates the process. The result of \<^verbatim>\<open>malloc\<close> is not
  checked: when \<open>size = capacity\<close> and the allocator cannot supply the new block, push goes
  on to use the null pointer, which is undefined behaviour. When a growing push succeeds,
  the container's pointer is replaced by the freshly allocated block, which is live
  afterwards and holds the elements of the old block, move-constructed at the same
  positions with the same values, followed by the new item: the value of the item at the
  call, for an item that is not an element of the old block.
\<close>

theorem push_reallocation:
  fixes a :: "'w::len GrowingArray"
  shows "push sz mv item a h \<noteq> Inl Abort \<and>
         (ga_size a = ga_capacity a \<and>
          \<not> can_alloc (unat (new_capacity (ga_capacity a) * of_nat sz)) h \<longrightarrow>
            push sz mv item a h = Inl Undefined) \<and>
         (\<forall>a' h'. ga_size a = ga_capacity a \<and> push sz mv item a h = Inr (a', h') \<longrightarrow>
            ga_begin a' = Suc (length (blocks h)) \<and>
            block_at h (ga_begin a') = None \<and> block_at h' (ga_begin a') \<noteq> None \<and>
            (\<forall>i<unat (ga_size a). slots h (ga_begin a) ! i \<noteq> Raw \<and>
                 slots h' (ga_begin a') ! i = as_object (slots h (ga_begin a) ! i) \<and>
                 slot_value (slots h' (ga_begin a') ! i) = slot_value (slots h (ga_begin a) ! i)) \<and>
            (\<forall>v. item_value item h = Inr v \<and> (\<forall>i. item \<noteq> Ref (ga_begin a) i) \<longrightarrow>
                 slots h' (ga_begin a') ! unat (ga_size a) = Assigned v))"
proof (intro conjI)
  show "push sz mv item a h \<noteq> Inl Abort" using push_error [of sz mv item a h Abort] by auto
next
  show "ga_size a = ga_capacity a \<and>
      \<not> can_alloc (unat (new_capacity (ga_capacity a) * of_nat sz)) h \<longrightarrow>
      push sz mv item a h = Inl Undefined"
  proof
    assume c: "ga_size a = ga_capacity a \<and>
      \<not> can_alloc (unat (new_capacity (ga_capacity a) * of_nat sz)) h"
    show "push sz mv item a h = Inl Undefined"
    proof (cases "push sz mv item a h")
      case (Inl e)
      then show ?thesis using push_error [OF Inl] by simp
    next
      case (Inr r)
      then have "push sz mv item a h = Inr (fst r, snd r)" by simp
      from push_grow_Inr(7) [OF this] c show ?thesis by simp
    qed
  qed
next
  show "\<forall>a' h'. ga_size a = ga_capacity a \<and> push sz mv item a h = Inr (a', h') \<longrightarrow>
            ga_begin a' = Suc (length (blocks h)) \<and>
            block_at h (ga_begin a') = None \<and> block_at h' (ga_begin a') \<noteq> None \<and>
            (\<forall>i<unat (ga_size a). slots h (ga_begin a) ! i \<noteq> Raw \<and>
                 slots h' (ga_begin a') ! i = as_object (slots h (ga_begin a) ! i) \<and>
                 slot_value (slots h' (ga_begin a') ! i) = slot_value (slots h (ga_begin a) ! i)) \<and>
            (\<forall>v. item_value item h = Inr v \<and> (\<forall>i. item \<noteq> Ref (ga_begin a) i) \<longrightarrow>
                 slots h' (ga_begin a') ! unat (ga_size a) = Assigned v)"
  proof (intro allI impI)
    fix a' h'
    assume c: "ga_size a = ga_capacity a \<and> push sz mv item a h = Inr (a', h')"
    then have p: "push sz mv item a h = Inr (a', h')" and e: "ga_size a = ga_capacity a"
      by simp_all
    note g = push_grow_Inr [OF p e]
    let ?S = "slots h (ga_begin a)"
    define n where "n = unat (ga_size a)"
    define m where "m = unat (new_capacity (ga_capacity a) * of_nat sz) div sz"
    define nb where "nb = Suc (length (blocks h))"
    have b: "ga_begin a' = nb" using g(1) by (simp add: nb_def)
    from g(5) obtain h2 w where
      s2: "slots h2 = (slots h)
          (ga_begin a := map (map_slot mv) (take n ?S) @ drop n ?S,
           nb := map as_object (take n ?S) @ replicate (m - n) Raw)"
      and iw: "item_value item h2 = Inr w"
      and sl': "slots h' = (slots h2)(nb := (slots h2 nb)[n := Assigned w])"
      by (auto simp: n_def m_def nb_def)
    have sl: "slots h' nb = (map as_object (take n ?S) @ replicate (m - n) Raw)[n := Assigned w]"
      using sl' s2 by simp
    have ln: "length (take n ?S) = n" using g(3) by (simp add: n_def)
    have nm: "n < m" using g(2) by (simp add: n_def m_def)
    have b0: "block_at h nb = None" by (simp add: nb_def block_at_def)
    have "slots h' nb \<noteq> []" using sl ln nm by auto
    then have b1: "block_at h' nb \<noteq> None" by (auto simp: slots_def split: option.splits)
    have it: "slots h' nb ! n = Assigned v"
      if v: "item_value item h = Inr v" and nr: "\<forall>i. item \<noteq> Ref (ga_begin a) i" for v
    proof -
      have "item_value item h2 = item_value item h"
      proof (cases item)
        case (Val x)
        then show ?thesis by simp
      next
        case (Ref q j)
        then have q: "q \<noteq> ga_begin a" using nr by auto
        have "j < length (slots h q)" using v Ref by (simp add: read_slot_Inr)
        moreover have "slots h nb = []" by (simp add: nb_def slots_beyond)
        ultimately have "q \<noteq> nb" by auto
        then have "slots h2 q = slots h q" using q s2 by simp
        then show ?thesis using Ref by (simp add: read_slot_def)
      qed
      then have "w = v" using iw v by simp
      then show ?thesis using sl ln nm by simp
    qed
    have old: "?S ! i \<noteq> Raw \<and> slots h' nb ! i = as_object (?S ! i) \<and>
        slot_value (slots h' nb ! i) = slot_value (?S ! i)" if "i < n" for i
    proof -
      have "slots h' nb ! i = as_object (?S ! i)"
        using sl ln nm that by (simp add: nth_append)
      then show ?thesis using g(4) that by (simp add: n_def slot_value_as_object)
    qed
    show "ga_begin a' = Suc (length (blocks h)) \<and>
            block_at h (ga_begin a') = None \<and> block_at h' (ga_begin a') \<noteq> None \<and>
            (\<forall>i<unat (ga_size a). slots h (ga_begin a) ! i \<noteq> Raw \<and>
                 slots h' (ga_begin a') ! i = as_object (slots h (ga_begin a) ! i) \<and>
                 slot_value (slots h' (ga_begin a') ! i) = slot_value (slots h (ga_begin a) ! i)) \<and>
            (\<forall>v. item_value item h = Inr v \<and> (\<forall>i. item \<noteq> Ref (ga_begin a) i) \<longrightarrow>
                 slots h' (ga_begin a') ! unat (ga_size a) = Assigned v)"
      unfolding b
    proof (intro conjI)
      show "nb = Suc (length (blocks h))" by (simp add: nb_def)
      show "block_at h nb = None" by (rule b0)
      show "block_at h' nb \<noteq> None" by (rule b1)
      show "\<forall>i<unat (ga_size a). ?S ! i \<noteq> Raw \<and> slots h' nb ! i = as_object (?S ! i) \<and>
          slot_value (slots h' nb ! i) = slot_value (?S ! i)"
        using old unfolding n_def by blast
      show "\<forall>v. item_value item h = Inr v \<and> (\<forall>i. item \<noteq> Ref (ga_begin a) i) \<longrightarrow>
          slots h' nb ! unat (ga_size a) = Assigned v"
        using it unfolding n_def by blast
    qed
  qed
qed

theorem push_reallocation_witness:
  "\<not> can_alloc (unat (new_capacity (0 :: 16 word) * of_nat 2))
       \<lparr>blocks = [] :: (nat \<times> int slot list) option list, avail = Some 3, ctors = 0, dtors = 0\<rparr> \<and>
   push 2 id (Val (7::int)) (GrowingArray_new :: 16 GrowingArray)
     \<lparr>blocks = [], avail = Some 3, ctors = 0, dtors = 0\<rparr> = Inl Undefined \<and>
   push 2 id (Val (7::int)) \<lparr>ga_begin = 1, ga_size = 2, ga_capacity = 2 :: 16 word\<rparr>
     \<lparr>blocks = [Some (4, [Assigned 2, Assigned 4])], avail = None, ctors = 0, dtors = 0\<rparr> =
   Inr (\<lparr>ga_begin = 2, ga_size = 3, ga_capacity = 3\<rparr>,
        \<lparr>blocks = [Some (4, [Assigned 2, Assigned 4]), Some (6, [Object 2, Object 4, Assigned 7])],
         avail = None, ctors = 2, dtors = 0\<rparr>) \<and>
   item_value (Val (7::int))
     \<lparr>blocks = [Some (4, [Assigned 2, Assigned 4])], avail = None, ctors = 0, dtors = 0\<rparr> =
     Inr 7 \<and>
   0 < unat (2 :: 16 word) \<and>
   slots \<lparr>blocks = [Some (4, [Assigned 2, Assigned 4]),
                    Some (6, [Object 2, Object 4, Assigned (7::int)])],
         avail = None, ctors = 2, dtors = 0\<rparr> 2 ! 0 = Object 2 \<and>
   slots \<lparr>blocks = [Some (4, [Assigned 2, Assigned 4]),
                    Some (6, [Object 2, Object 4, Assigned (7::int)])],
         avail = None, ctors = 2, dtors = 0\<rparr> 2 ! 2 = Assigned 7"
proof -
  let ?h = "\<lparr>blocks = [Some (4, [Assigned 2, Assigned (4::int)])], avail = None, ctors = 0, dtors = 0\<rparr>"
  let ?k = "\<lparr>blocks = [Some (4, [Assigned 2, Assigned 4]),
                    Some (6, [Object 2, Object 4, Assigned (7::int)])],
         avail = None, ctors = 2, dtors = 0\<rparr>"
  let ?a = "\<lparr>ga_begin = 1, ga_size = 2, ga_capacity = 2 :: 16 word\<rparr>"
  let ?b = "\<lparr>ga_begin = 2, ga_size = 3, ga_capacity = 3 :: 16 word\<rparr>"
  let ?g = "\<lparr>blocks = [] :: (nat \<times> int slot list) option list, avail = Some 3, ctors = 0, dtors = 0\<rparr>"
  have e: "push 2 id (Val 7) ?a ?h = Inr (?b, ?k)"
    by code_simp
  have n: "\<not> can_alloc (unat (new_capacity (0 :: 16 word) * of_nat 2)) ?g"
    by code_simp
  have "ga_size (GrowingArray_new :: 16 GrowingArray) = ga_capacity (GrowingArray_new :: 16 GrowingArray) \<and>
      \<not> can_alloc (unat (new_capacity (ga_capacity (GrowingArray_new :: 16 GrowingArray)) * of_nat 2)) ?g"
    using n by (simp add: GrowingArray_new_def)
  with push_reallocation [of 2 id "Val 7" "GrowingArray_new :: 16 GrowingArray" ?g]
  have u: "push 2 id (Val 7) (GrowingArray_new :: 16 GrowingArray) ?g = Inl Undefined"
    by blast
  have c: "ga_size ?a = ga_capacity ?a \<and> push 2 id (Val 7) ?a ?h = Inr (?b, ?k)"
    using e by simp
  have v: "item_value (Val (7::int)) ?h = Inr 7 \<and> (\<forall>i. Val (7::int) \<noteq> Ref (ga_begin ?a) i)"
    by simp
  from push_reallocation [of 2 id "Val 7" ?a ?h, THEN conjunct2, THEN conjunct2,
      rule_format, OF c, THEN conjunct2, THEN conjunct2, THEN conjunct2, THEN conjunct2,
      rule_format, OF v]
  have "slots ?k (ga_begin ?b) ! unat (ga_size ?a) = Assigned 7" .
  then have s: "slots ?k 2 ! 2 = Assigned 7" by simp
  have i: "item_value (Val (7::int)) ?h = Inr 7" by simp
  have z: "0 < unat (ga_size ?a)" by simp
  have sv: "slots ?h 1 ! 0 = Assigned 2" by code_simp
  from push_reallocation [of 2 id "Val 7" ?a ?h, THEN conjunct2, THEN conjunct2,
      rule_format, OF c, THEN conjunct2, THEN conjunct2, THEN conjunct2, THEN conjunct1,
      rule_format, OF z]
  have "slots ?k (ga_begin ?b) ! 0 = as_object (slots ?h (ga_begin ?a) ! 0)" by blast
  then have o: "slots ?k 2 ! 0 = Object 2" using sv by simp
  have z': "0 < unat (2 :: 16 word)" by simp
  show ?thesis using e n u s i o z' by blast
qed

text \<open>
  Claim C5 as stated fails: with an allocator that cannot supply the new block, push does
  not terminate the process (the result is undefined behaviour, not \<open>Abort\<close>); and after a
  growing push that succeeds, the old block (block 1 below) is still allocated.
\<close>

theorem push_unchecked_allocation_counterexample:
  "push 2 id (Val (7::int)) (GrowingArray_new :: 16 GrowingArray)
     \<lparr>blocks = [], avail = Some 3, ctors = 0, dtors = 0\<rparr> = Inl Undefined \<and>
   push 2 id (Val (7::int)) \<lparr>ga_begin = 1, ga_size = 2, ga_capacity = 2 :: 16 word\<rparr>
     \<lparr>blocks = [Some (4, [Assigned 2, Assigned 4])], avail = None, ctors = 0, dtors = 0\<rparr> =
   Inr (\<lparr>ga_begin = 2, ga_size = 3, ga_capacity = 3\<rparr>,
        \<lparr>blocks = [Some (4, [Assigned 2, Assigned 4]), Some (6, [Object 2, Object 4, Assigned 7])],
         avail = None, ctors = 2, dtors = 0\<rparr>)"
  by code_simp

section \<open>Construction and destruction counts\<close>

text \<open>
  Claim C6 at a failing input. One push onto an empty GrowingArray followed by the
  destructor records no construction and one destruction, since push stores the item with
  the assignment operator and not with placement new. With three pushes (one reallocation
  that moves two elements) the counts are two constructions and three destructions, and
  the block left behind by the reallocation is still allocated after the destructor. A
  HeapArray of three elements, by contrast, records three constructions and three
  destructions. (\<^verbatim>\<open>INT_MAX\<close> is \<open>32767\<close> here, \<^verbatim>\<open>size_t\<close> has 16 bits.)
\<close>

theorem push_destroy_counts:
  "push 1 id (Val (7::int)) (GrowingArray_new :: 16 GrowingArray) empty_heap =
     Inr (\<lparr>ga_begin = 1, ga_size = 1, ga_capacity = 2\<rparr>,
          \<lparr>blocks = [Some (2, [Assigned 7, Raw])], avail = None, ctors = 0, dtors = 0\<rparr>) \<and>
   GrowingArray_destroy 32767 \<lparr>ga_begin = 1, ga_size = 1, ga_capacity = 2 :: 16 word\<rparr>
     \<lparr>blocks = [Some (2, [Assigned (7::int), Raw])], avail = None, ctors = 0, dtors = 0\<rparr> =
     Inr \<lparr>blocks = [None], avail = None, ctors = 0, dtors = 1\<rparr> \<and>
   push_all 1 id [Val 2, Val 4, Val (6::int)] (GrowingArray_new :: 16 GrowingArray) empty_heap =
     Inr (\<lparr>ga_begin = 2, ga_size = 3, ga_capacity = 3\<rparr>,
          \<lparr>blocks = [Some (2, [Assigned 2, Assigned 4]), Some (3, [Object 2, Object 4, Assigned 6])],
           avail = None, ctors = 2, dtors = 0\<rparr>) \<and>
   GrowingArray_destroy 32767 \<lparr>ga_begin = 2, ga_size = 3, ga_capacity = 3 :: 16 word\<rparr>
     \<lparr>blocks = [Some (2, [Assigned 2, Assigned 4]), Some (3, [Object 2, Object 4, Assigned (6::int)])],
      avail = None, ctors = 2, dtors = 0\<rparr> =
     Inr \<lparr>blocks = [Some (2, [Assigned 2, Assigned 4]), None], avail = None, ctors = 2, dtors = 3\<rparr> \<and>
   HeapArray_new 1 (0::int) (3 :: 16 word) empty_heap =
     Inr (\<lparr>ha_begin = 1, ha_size = 3\<rparr>,
          \<lparr>blocks = [Some (3, [Object 0, Object 0, Object 0])], avail = None, ctors = 3, dtors = 0\<rparr>) \<and>
   HeapArray_destroy 32767 \<lparr>ha_begin = 1, ha_size = 3 :: 16 word\<rparr>
     \<lparr>blocks = [Some (3, [Object (0::int), Object 0, Object 0])], avail = None, ctors = 3, dtors = 0\<rparr> =
     Inr \<lparr>blocks = [None], avail = None, ctors = 3, dtors = 3\<rparr>"
proof -
  let ?a = "\<lparr>ga_begin = 1, ga_size = 1, ga_capacity = 2 :: 16 word\<rparr>"
  let ?g = "\<lparr>blocks = [Some (2, [Assigned (7::int), Raw])], avail = None, ctors = 0, dtors = 0\<rparr>"
  let ?b = "\<lparr>ga_begin = 2, ga_size = 3, ga_capacity = 3 :: 16 word\<rparr>"
  let ?h = "\<lparr>blocks = [Some (2, [Assigned 2, Assigned 4]), Some (3, [Object 2, Object 4, Assigned (6::int)])],
      avail = None, ctors = 2, dtors = 0\<rparr>"
  let ?c = "\<lparr>ha_begin = 1, ha_size = 3 :: 16 word\<rparr>"
  let ?k = "\<lparr>blocks = [Some (3, [Object (0::int), Object 0, Object 0])], avail = None, ctors = 3, dtors = 0\<rparr>"
  have p: "push 1 id (Val 7) (GrowingArray_new :: 16 GrowingArray) empty_heap = Inr (?a, ?g)"
    by code_simp
  have "GrowingArray_destroy 32767 ?a ?g =
      (case for_each [0..<unat (ga_size ?a)] (destroy_at (ga_begin ?a)) ?g of
         Inl e \<Rightarrow> Inl e | Inr h1 \<Rightarrow> free (ga_begin ?a) h1)"
    by (rule GrowingArray_destroy_in_range) simp
  also have "\<dots> = Inr \<lparr>blocks = [None], avail = None, ctors = 0, dtors = 1\<rparr>"
    by code_simp
  finally have d: "GrowingArray_destroy 32767 ?a ?g =
      Inr \<lparr>blocks = [None], avail = None, ctors = 0, dtors = 1\<rparr>" .
  have q: "push_all 1 id [Val 2, Val 4, Val 6] (GrowingArray_new :: 16 GrowingArray) empty_heap =
      Inr (?b, ?h)"
    by code_simp
  have "GrowingArray_destroy 32767 ?b ?h =
      (case for_each [0..<unat (ga_size ?b)] (destroy_at (ga_begin ?b)) ?h of
         Inl e \<Rightarrow> Inl e | Inr h1 \<Rightarrow> free (ga_begin ?b) h1)"
    by (rule GrowingArray_destroy_in_range) simp
  also have "\<dots> =
      Inr \<lparr>blocks = [Some (2, [Assigned 2, Assigned 4]), None], avail = None, ctors = 2, dtors = 3\<rparr>"
    by code_simp
  finally have e: "GrowingArray_destroy 32767 ?b ?h =
      Inr \<lparr>blocks = [Some (2, [Assigned 2, Assigned 4]), None], avail = None, ctors = 2, dtors = 3\<rparr>" .
  have n: "HeapArray_new 1 (0::int) (3 :: 16 word) empty_heap = Inr (?c, ?k)"
    by code_simp
  have "HeapArray_destroy 32767 ?c ?k =
      (case for_each [0..<unat (ha_size ?c)] (destroy_at (ha_begin ?c)) ?k of
         Inl e \<Rightarrow> Inl e | Inr h1 \<Rightarrow> free (ha_begin ?c) h1)"
    by (rule HeapArray_destroy_in_range) simp
  also have "\<dots> = Inr \<lparr>blocks = [None], avail = None, ctors = 3, dtors = 3\<rparr>"
    by code_simp
  finally have f: "HeapArray_destroy 32767 ?c ?k =
      Inr \<lparr>blocks = [None], avail = None, ctors = 3, dtors = 3\<rparr>" .
  show ?thesis by (intro conjI) (rule p d q e n f)+
qed

section \<open>Copying\<close>

text \<open>
  Claim C7 at a failing input. With \<open>sizeof(T) = 2\<close>, \<^verbatim>\<open>copy()\<close> of a GrowingArray holding
  \<open>2, 4, 6\<close> asks \<^verbatim>\<open>malloc\<close> for \<open>size = 3\<close> bytes, a block with room for one element, and
  constructing the second element runs past the end of the block. The constructor of
  HeapArray asks for \<^verbatim>\<open>length\<close> bytes in the same way.
\<close>

theorem copy_allocates_size_bytes:
  "push_all 2 id [Val 2, Val 4, Val (6::int)] (GrowingArray_new :: 16 GrowingArray) empty_heap =
     Inr (\<lparr>ga_begin = 2, ga_size = 3, ga_capacity = 3\<rparr>,
          \<lparr>blocks = [Some (4, [Assigned 2, Assigned 4]), Some (6, [Object 2, Object 4, Assigned 6])],
           avail = None, ctors = 2, dtors = 0\<rparr>) \<and>
   GrowingArray_copy 2 \<lparr>ga_begin = 2, ga_size = 3, ga_capacity = 3 :: 16 word\<rparr>
     \<lparr>blocks = [Some (4, [Assigned 2, Assigned 4]), Some (6, [Object 2, Object 4, Assigned (6::int)])],
      avail = None, ctors = 2, dtors = 0\<rparr> = Inl Undefined \<and>
   malloc 2 (unat (3 :: 16 word))
     \<lparr>blocks = [Some (4, [Assigned 2, Assigned 4]), Some (6, [Object 2, Object 4, Assigned (6::int)])],
      avail = None, ctors = 2, dtors = 0\<rparr> =
     (3, \<lparr>blocks = [Some (4, [Assigned 2, Assigned 4]), Some (6, [Object 2, Object 4, Assigned 6]),
                    Some (3, [Raw])],
          avail = None, ctors = 2, dtors = 0\<rparr>) \<and>
   HeapArray_new 2 (0::int) (3 :: 16 word) empty_heap = Inl Undefined"
  by code_simp

section \<open>Push within capacity\<close>

text \<open>
  Claim C8 at a failing input. The source of a move is a GrowingArray state with
  \<open>size < capacity\<close>: after one push (size \<open>1\<close>, capacity \<open>2\<close>) and a move, the source
  has a null pointer, size \<open>0\<close> and capacity \<open>2\<close>. A push in this state takes the branch
  without allocation and stores through the null pointer: it writes no item and does not
  increment \<open>size\<close>. This is the defect of the move constructor of claim C2, which does
  not reset \<^verbatim>\<open>capacity\<close>. In the destination of the move, where the block has room for
  \<open>capacity\<close> elements, the push does what the claim says (lemma \<open>push_with_room\<close>).
\<close>

theorem push_within_capacity_moved_from:
  "push 2 id (Val (7::int)) (GrowingArray_new :: 16 GrowingArray) empty_heap =
     Inr (\<lparr>ga_begin = 1, ga_size = 1, ga_capacity = 2\<rparr>,
          \<lparr>blocks = [Some (4, [Assigned 7, Raw])], avail = None, ctors = 0, dtors = 0\<rparr>) \<and>
   GrowingArray_move \<lparr>ga_begin = 1, ga_size = 1, ga_capacity = 2 :: 16 word\<rparr> =
     (\<lparr>ga_begin = 1, ga_size = 1, ga_capacity = 2\<rparr>,
      \<lparr>ga_begin = 0, ga_size = 0, ga_capacity = 2\<rparr>) \<and>
   ga_size \<lparr>ga_begin = 0, ga_size = 0, ga_capacity = 2 :: 16 word\<rparr> <
     ga_capacity \<lparr>ga_begin = 0, ga_size = 0, ga_capacity = 2 :: 16 word\<rparr> \<and>
   push 2 id (Val (9::int)) \<lparr>ga_begin = 0, ga_size = 0, ga_capacity = 2 :: 16 word\<rparr>
     \<lparr>blocks = [Some (4, [Assigned 7, Raw])], avail = None, ctors = 0, dtors = 0\<rparr> =
     Inl Undefined \<and>
   push 2 id (Val (9::int)) \<lparr>ga_begin = 1, ga_size = 1, ga_capacity = 2 :: 16 word\<rparr>
     \<lparr>blocks = [Some (4, [Assigned 7, Raw])], avail = None, ctors = 0, dtors = 0\<rparr> =
     Inr (\<lparr>ga_begin = 1, ga_size = 2, ga_capacity = 2\<rparr>,
          \<lparr>blocks = [Some (4, [Assigned 7, Assigned 9])], avail = None, ctors = 0, dtors = 0\<rparr>)"
  by code_simp

section \<open>The invariant\<close>

text \<open>
  Claim C9 at failing inputs. The invariant \<open>ga_inv\<close> holds of the default-constructed
  GrowingArray. It is not preserved:
  \<^item> by \<^verbatim>\<open>push\<close>: after the first push the element at position \<open>0\<close> is a value assigned
    to raw storage, not a constructed object (the defect of claim C6: push assigns and
    does not construct);
  \<^item> by move construction: \<^verbatim>\<open>copy()\<close> with \<open>sizeof(T) = 1\<close> of that array yields an array
    that satisfies the invariant (size and capacity \<open>1\<close>, one constructed object), and
    the source of a move from it has a null pointer and size \<open>0\<close> but still capacity
    \<open>1\<close>, so that its block has no room for \<open>capacity\<close> elements (the defect of claim C2);
  \<^item> by \<^verbatim>\<open>copy()\<close> with \<open>sizeof(T) = 2\<close> of an array that satisfies the invariant and
    holds two elements: the new block has room for one element and the copy runs past its
    end (the defect of claim C7).
\<close>

theorem growing_array_invariant_broken:
  "ga_inv (GrowingArray_new :: 16 GrowingArray) (empty_heap :: int heap) \<and>
   push 1 id (Val (7::int)) (GrowingArray_new :: 16 GrowingArray) empty_heap =
     Inr (\<lparr>ga_begin = 1, ga_size = 1, ga_capacity = 2\<rparr>,
          \<lparr>blocks = [Some (2, [Assigned 7, Raw])], avail = None, ctors = 0, dtors = 0\<rparr>) \<and>
   \<not> ga_inv \<lparr>ga_begin = 1, ga_size = 1, ga_capacity = 2 :: 16 word\<rparr>
     \<lparr>blocks = [Some (2, [Assigned (7::int), Raw])], avail = None, ctors = 0, dtors = 0\<rparr> \<and>
   GrowingArray_copy 1 \<lparr>ga_begin = 1, ga_size = 1, ga_capacity = 2 :: 16 word\<rparr>
     \<lparr>blocks = [Some (2, [Assigned (7::int), Raw])], avail = None, ctors = 0, dtors = 0\<rparr> =
     Inr (\<lparr>ga_begin = 2, ga_size = 1, ga_capacity = 1\<rparr>,
          \<lparr>blocks = [Some (2, [Assigned 7, Raw]), Some (1, [Object 7])],
           avail = None, ctors = 1, dtors = 0\<rparr>) \<and>
   ga_inv \<lparr>ga_begin = 2, ga_size = 1, ga_capacity = 1 :: 16 word\<rparr>
     \<lparr>blocks = [Some (2, [Assigned (7::int), Raw]), Some (1, [Object 7])],
      avail = None, ctors = 1, dtors = 0\<rparr> \<and>
   GrowingArray_move \<lparr>ga_begin = 2, ga_size = 1, ga_capacity = 1 :: 16 word\<rparr> =
     (\<lparr>ga_begin = 2, ga_size = 1, ga_capacity = 1\<rparr>,
      \<lparr>ga_begin = 0, ga_size = 0, ga_capacity = 1\<rparr>) \<and>
   \<not> ga_inv \<lparr>ga_begin = 0, ga_size = 0, ga_capacity = 1 :: 16 word\<rparr>
     \<lparr>blocks = [Some (2, [Assigned (7::int), Raw]), Some (1, [Object 7])],
      avail = None, ctors = 1, dtors = 0\<rparr> \<and>
   ga_inv \<lparr>ga_begin = 1, ga_size = 2, ga_capacity = 2 :: 16 word\<rparr>
     \<lparr>blocks = [Some (4, [Object (2::int), Object 4])], avail = None, ctors = 2, dtors = 0\<rparr> \<and>
   GrowingArray_copy 2 \<lparr>ga_begin = 1, ga_size = 2, ga_capacity = 2 :: 16 word\<rparr>
     \<lparr>blocks = [Some (4, [Object (2::int), Object 4])], avail = None, ctors = 2, dtors = 0\<rparr> =
     Inl Undefined"
  by code_simp

section \<open>Sizes do not depend on the values\<close>

text \<open>
  Claim C10. Two runs that push the same number of items, with arbitrary element values,
  onto the same GrowingArray state in heaps of the same shape (heaps that differ only in
  the element values stored) have the same outcome after every step: the same error, or
  the same size and capacity. The items of the two runs agree in all but their values:
  \<open>map_item (\<lambda>v. ())\<close> erases the value of an item \<open>Val v\<close> and keeps a reference
  \<open>Ref p i\<close>, so two lists of values of the same length always agree. The values that the
  move constructors leave in their sources may differ between the runs as well.
\<close>

theorem push_sizes_independent_of_values:
  fixes xs ys :: "'a item list" and a :: "'w::len GrowingArray"
  assumes "map (map_item (\<lambda>v. ())) xs = map (map_item (\<lambda>v. ())) ys"
    and "heap_shape h1 = heap_shape h2"
  shows "\<forall>k\<le>length xs.
           map_sum id (\<lambda>r. (ga_size (fst r), ga_capacity (fst r)))
             (push_all sz mv1 (take k xs) a h1) =
           map_sum id (\<lambda>r. (ga_size (fst r), ga_capacity (fst r)))
             (push_all sz mv2 (take k ys) a h2)"
proof (intro allI impI)
  fix k assume "k \<le> length xs"
  let ?f = "\<lambda>r :: 'w GrowingArray \<times> unit heap. (ga_size (fst r), ga_capacity (fst r))"
  have e: "map_sum id (\<lambda>r. (ga_size (fst r), ga_capacity (fst r))) (push_all sz mv zs a h) =
      map_sum id ?f (push_all sz (\<lambda>u. ()) (map (map_item (\<lambda>v. ())) zs) a (heap_shape h))"
    for zs :: "'a item list" and h mv
    by (cases "push_all sz mv zs a h") (simp_all add: push_all_shape [of sz zs a h mv])
  have "map (map_item (\<lambda>v. ())) (take k xs) = map (map_item (\<lambda>v. ())) (take k ys)"
    using assms(1) by (simp add: take_map [symmetric])
  then show "map_sum id (\<lambda>r. (ga_size (fst r), ga_capacity (fst r)))
        (push_all sz mv1 (take k xs) a h1) =
      map_sum id (\<lambda>r. (ga_size (fst r), ga_capacity (fst r)))
        (push_all sz mv2 (take k ys) a h2)"
    using assms(2) by (simp add: e)
qed

theorem push_sizes_independent_of_values_witness:
  "map (map_item (\<lambda>v. ())) [Val 2, Val 4, Val (6::int)] =
     map (map_item (\<lambda>v. ())) [Val 7, Val 7, Val (7::int)] \<and>
   heap_shape (empty_heap :: int heap) = heap_shape (empty_heap :: int heap) \<and>
   map_sum id (\<lambda>r. (ga_size (fst r), ga_capacity (fst r)))
     (push_all 2 id [Val 2, Val 4, Val (6::int)] (GrowingArray_new :: 16 GrowingArray) empty_heap) =
   map_sum id (\<lambda>r. (ga_size (fst r), ga_capacity (fst r)))
     (push_all 2 moved_to_zero [Val 7, Val 7, Val 7] (GrowingArray_new :: 16 GrowingArray) empty_heap) \<and>
   map_sum id (\<lambda>r. (ga_size (fst r), ga_capacity (fst r)))
     (push_all 2 id [Val 2, Val (4::int)] (GrowingArray_new :: 16 GrowingArray) empty_heap) =
   map_sum id (\<lambda>r. (ga_size (fst r), ga_capacity (fst r)))
     (push_all 2 moved_to_zero [Val 7, Val 7] (GrowingArray_new :: 16 GrowingArray) empty_heap) \<and>
   map_sum id (\<lambda>r. (ga_size (fst r), ga_capacity (fst r)))
     (push_all 2 moved_to_zero [Val 7, Val 7, Val 7] (GrowingArray_new :: 16 GrowingArray) empty_heap) =
     Inr (3, 3)"
proof -
  have l: "map (map_item (\<lambda>v. ())) [Val 2, Val 4, Val (6::int)] =
      map (map_item (\<lambda>v. ())) [Val 7, Val 7, Val (7::int)]" by simp
  have s: "heap_shape (empty_heap :: int heap) = heap_shape (empty_heap :: int heap)" by simp
  note t = push_sizes_independent_of_values [OF l s,
      of 2 id "GrowingArray_new :: 16 GrowingArray" moved_to_zero, rule_format]
  have t3: "map_sum id (\<lambda>r. (ga_size (fst r), ga_capacity (fst r)))
     (push_all 2 id [Val 2, Val 4, Val (6::int)] (GrowingArray_new :: 16 GrowingArray) empty_heap) =
   map_sum id (\<lambda>r. (ga_size (fst r), ga_capacity (fst r)))
     (push_all 2 moved_to_zero [Val 7, Val 7, Val 7] (GrowingArray_new :: 16 GrowingArray) empty_heap)"
    using t [of 3] by simp
  have t2: "map_sum id (\<lambda>r. (ga_size (fst r), ga_capacity (fst r)))
     (push_all 2 id [Val 2, Val (4::int)] (GrowingArray_new :: 16 GrowingArray) empty_heap) =
   map_sum id (\<lambda>r. (ga_size (fst r), ga_capacity (fst r)))
     (push_all 2 moved_to_zero [Val 7, Val 7] (GrowingArray_new :: 16 GrowingArray) empty_heap)"
    using t [of 2] by simp
  have v: "map_sum id (\<lambda>r. (ga_size (fst r), ga_capacity (fst r)))
     (push_all 2 moved_to_zero [Val 7, Val 7, Val 7] (GrowingArray_new :: 16 GrowingArray) empty_heap) =
     Inr (3, 3)"
    by code_simp
  show ?thesis using l s t3 t2 v by blast
qed

end
